theory Spec2Isabelle
  imports Main
begin

section \<open>The value-passing condition variable of alicebot.utils\<close>

text \<open>
  The class \<open>Condition\<close> of \<open>alicebot/utils.py\<close> pairs an \<open>asyncio.Lock\<close> with a deque
  of futures. A waiter releases the lock, appends a fresh future to the deque and awaits
  it; a notifier sets the result of the first \<open>n\<close> futures of the deque that are not
  done yet; the waiter, once resumed, removes its own future and takes the lock again.

  The coroutines run on a single-threaded cooperative event loop. A coroutine is modelled
  here as a function on the shared state that runs from one suspension point to the
  next; what the rest of the program does while the coroutine is suspended is given to
  the function as a list of events, one per turn of the event loop.
\<close>

subsection \<open>Data\<close>

type_synonym tid = nat  \<comment> \<open>a task of the event loop\<close>
type_synonym fid = nat  \<comment> \<open>the identity of a future object\<close>

text \<open>The exceptions that the modelled code can raise.\<close>

datatype error = RuntimeError | CancelledError | ValueError | InvalidStateError

text \<open>
  An \<open>asyncio.Future\<close>: pending, finished with a result, or cancelled.
  \<open>fut.done()\<close> is true in the last two states.
\<close>

datatype 'v future = Pending | Result 'v | Cancelled

fun is_done :: "'v future \<Rightarrow> bool" where
  "is_done Pending = False"
| "is_done (Result v) = True"
| "is_done Cancelled = True"

text \<open>
  The state that the methods of one \<open>Condition\<close> object read and write.
  \<^item> \<open>lock_owner\<close> is the \<open>asyncio.Lock\<close> held in \<open>self._lock\<close>. The lock of the runtime
    keeps one flag, \<open>_locked\<close>; the model also remembers which task's \<open>acquire\<close> set the
    flag, so that "the calling task holds the lock" can be said. \<open>locked()\<close> is
    \<open>lock_owner \<noteq> None\<close>.
  \<^item> \<open>waiters\<close> is the deque \<open>self._waiters\<close>, oldest first; it holds references to
    futures.
  \<^item> \<open>futs\<close> is the store of the future objects, \<open>next_fut\<close> the next unused identity
    (\<open>create_future\<close> returns a new object every time).
  \<^item> \<open>guarded\<close> is the program state that the lock protects and that the predicate of
    \<open>wait_for\<close> reads.
\<close>

record ('v, 'g) cond =
  lock_owner :: "tid option"
  waiters :: "fid list"
  futs :: "fid \<Rightarrow> 'v future"
  next_fut :: fid
  guarded :: 'g

text \<open>
  One turn of the event loop as seen by a suspended coroutine: what the other tasks did
  to the state during the turn, and whether a \<open>CancelledError\<close> is thrown into the
  coroutine at the end of it (\<open>Task.cancel\<close>).
\<close>

type_synonym ('v, 'g) event = "(('v, 'g) cond \<Rightarrow> ('v, 'g) cond) \<times> bool"

subsection \<open>The lock and the futures of the runtime\<close>

definition locked :: "('v, 'g) cond \<Rightarrow> bool" where
  "locked s = (lock_owner s \<noteq> None)"

text \<open>\<open>Lock.release\<close>: frees a locked lock, raises \<open>RuntimeError\<close> on a free one.\<close>

definition release :: "('v, 'g) cond \<Rightarrow> error + ('v, 'g) cond" where
  "release s = (if locked s then Inr (s\<lparr>lock_owner := None\<rparr>) else Inl RuntimeError)"

text \<open>
  \<open>Lock.acquire\<close> once the caller had to queue for the lock: turn after turn, the
  coroutine stays suspended while another task holds the lock, raises \<open>CancelledError\<close>
  when one is thrown into it, and takes the lock otherwise. No event left means that
  the coroutine is still suspended.
\<close>

fun acquire_wait :: "tid \<Rightarrow> ('v, 'g) event list \<Rightarrow> ('v, 'g) cond
    \<Rightarrow> ((error + bool) \<times> ('v, 'g) cond \<times> ('v, 'g) event list) option" where
  "acquire_wait t [] s = None"
| "acquire_wait t ((env, cancel) # es) s =
     (let s' = env s in
      if cancel then Some (Inl CancelledError, s', es)
      else if locked s' then acquire_wait t es s'
      else Some (Inr True, s'\<lparr>lock_owner := Some t\<rparr>, es))"

text \<open>\<open>Lock.acquire\<close>: a free lock is taken at once, without suspending.\<close>

definition acquire :: "tid \<Rightarrow> ('v, 'g) event list \<Rightarrow> ('v, 'g) cond
    \<Rightarrow> ((error + bool) \<times> ('v, 'g) cond \<times> ('v, 'g) event list) option" where
  "acquire t es s =
     (if \<not> locked s then Some (Inr True, s\<lparr>lock_owner := Some t\<rparr>, es)
      else acquire_wait t es s)"

text \<open>\<open>loop.create_future()\<close>: a new pending future.\<close>

definition create_future :: "('v, 'g) cond \<Rightarrow> fid \<times> ('v, 'g) cond" where
  "create_future s =
     (next_fut s, s\<lparr>futs := (futs s)(next_fut s := Pending), next_fut := next_fut s + 1\<rparr>)"

text \<open>\<open>fut.set_result(v)\<close>: raises \<open>InvalidStateError\<close> on a future that is done.\<close>

definition set_result :: "fid \<Rightarrow> 'v \<Rightarrow> (fid \<Rightarrow> 'v future) \<Rightarrow> error + (fid \<Rightarrow> 'v future)" where
  "set_result fut v fs = (if is_done (fs fut) then Inl InvalidStateError else Inr (fs(fut := Result v)))"

text \<open>
  \<open>await fut\<close>: the coroutine stays suspended while the future is pending and nothing
  is thrown into it; it resumes with the result of the future, or with
  \<open>CancelledError\<close> when the future was cancelled or the task is being cancelled. A
  cancellation thrown into the task wins over a result that the future already has.
\<close>

fun await_fut :: "fid \<Rightarrow> ('v, 'g) event list \<Rightarrow> ('v, 'g) cond
    \<Rightarrow> ((error + 'v) \<times> ('v, 'g) cond \<times> ('v, 'g) event list) option" where
  "await_fut fut [] s = None"
| "await_fut fut ((env, cancel) # es) s =
     (let s' = env s in
      if cancel then Some (Inl CancelledError, s', es)
      else (case futs s' fut of
              Pending \<Rightarrow> await_fut fut es s'
            | Result v \<Rightarrow> Some (Inr v, s', es)
            | Cancelled \<Rightarrow> Some (Inl CancelledError, s', es)))"

text \<open>\<open>deque.remove(x)\<close>: removes the first occurrence, raises \<open>ValueError\<close> when there is none.\<close>

definition deque_remove :: "fid \<Rightarrow> fid list \<Rightarrow> error + fid list" where
  "deque_remove x xs = (if x \<in> set xs then Inr (remove1 x xs) else Inl ValueError)"

subsection \<open>Condition.wait\<close>

text \<open>
  The loop of the outer \<open>finally\<close> (lines 78 to 85): \<open>acquire\<close> is called again after
  every \<open>CancelledError\<close>, and the flag \<open>cancelled\<close> remembers that there was one. Any
  other exception of \<open>acquire\<close> would leave the loop.
\<close>

lemma acquire_wait_shorter:
  "acquire_wait t es s = Some (r, s', es') \<Longrightarrow> length es' < length es"
proof (induction es arbitrary: s)
  case Nil
  then show ?case by simp
next
  case (Cons e es)
  obtain env cancel where e: "e = (env, cancel)" by (cases e)
  from Cons.prems Cons.IH [of "env s"] show ?case
    by (auto simp: e Let_def split: if_splits)
qed

lemma acquire_error_shorter:
  "acquire t es s = Some (Inl e, s', es') \<Longrightarrow> length es' < length es"
  by (auto simp: acquire_def split: if_splits dest: acquire_wait_shorter)

function reacquire :: "tid \<Rightarrow> bool \<Rightarrow> ('v, 'g) event list \<Rightarrow> ('v, 'g) cond
    \<Rightarrow> ((error + bool) \<times> ('v, 'g) cond \<times> ('v, 'g) event list) option" where
  "reacquire t cancelled es s =
     (case acquire t es s of
        None \<Rightarrow> None
      | Some (Inr _, s', es') \<Rightarrow> Some (Inr cancelled, s', es')
      | Some (Inl e, s', es') \<Rightarrow>
          if e = CancelledError then reacquire t True es' s' else Some (Inl e, s', es'))"
  by pat_completeness auto
termination
  by (relation "measure (\<lambda>(t, c, es, s). length es)") (auto dest: acquire_error_shorter)

declare reacquire.simps [simp del]

text \<open>
  \<open>wait\<close> (lines 63 to 87) for the task \<open>t\<close>, in the three pieces that run without
  suspension and the two suspension points between them.

  \<open>wait_enter\<close> (lines 64 to 70): the check and \<open>release\<close> stand before the \<open>try\<close>, then
  the new future is appended to the deque.
\<close>

definition wait_enter :: "('v, 'g) cond \<Rightarrow> error + (fid \<times> ('v, 'g) cond)" where
  "wait_enter s =
     (if \<not> locked s then Inl RuntimeError
      else case release s of
        Inl e \<Rightarrow> Inl e
      | Inr s1 \<Rightarrow>
          (let (fut, s2) = create_future s1
           in Inr (fut, s2\<lparr>waiters := waiters s2 @ [fut]\<rparr>)))"

text \<open>
  \<open>wait_drain\<close> (line 74, the inner \<open>finally\<close>): the future is removed from the deque
  whatever \<open>await fut\<close> gave, and an exception of \<open>remove\<close> replaces that outcome.
\<close>

definition wait_drain :: "fid \<Rightarrow> error + 'v \<Rightarrow> ('v, 'g) cond \<Rightarrow> (error + 'v) \<times> ('v, 'g) cond" where
  "wait_drain fut r s =
     (case deque_remove fut (waiters s) of
        Inl e \<Rightarrow> (Inl e, s)
      | Inr ws \<Rightarrow> (r, s\<lparr>waiters := ws\<rparr>))"

text \<open>
  The outer \<open>finally\<close> takes the lock again and raises \<open>CancelledError\<close> in place of the
  outcome when \<open>acquire\<close> was cancelled on the way. The result of \<open>wait\<close> is \<open>None\<close> when
  the events end while the coroutine is still suspended.
\<close>

definition wait :: "tid \<Rightarrow> ('v, 'g) event list \<Rightarrow> ('v, 'g) cond
    \<Rightarrow> ((error + 'v) \<times> ('v, 'g) cond \<times> ('v, 'g) event list) option" where
  "wait t es s =
     (case wait_enter s of
        Inl e \<Rightarrow> Some (Inl e, s, es)
      | Inr (fut, s3) \<Rightarrow>
          (case await_fut fut es s3 of
             None \<Rightarrow> None
           | Some (r, s4, es1) \<Rightarrow>
               (let (r1, s5) = wait_drain fut r s4
                in case reacquire t False es1 s5 of
                     None \<Rightarrow> None
                   | Some (Inl e, s6, es2) \<Rightarrow> Some (Inl e, s6, es2)
                   | Some (Inr cancelled, s6, es2) \<Rightarrow>
                       Some (if cancelled then Inl CancelledError else r1, s6, es2))))"

subsection \<open>Condition.wait_for\<close>

lemma await_fut_shorter:
  "await_fut fut es s = Some (r, s', es') \<Longrightarrow> length es' < length es"
proof (induction es arbitrary: s)
  case Nil
  then show ?case by simp
next
  case (Cons e es)
  obtain env cancel where e: "e = (env, cancel)" by (cases e)
  from Cons.prems Cons.IH [of "env s"] show ?case
    by (auto simp: e Let_def split: if_splits future.splits)
qed

lemma acquire_not_longer:
  "acquire t es s = Some (r, s', es') \<Longrightarrow> length es' \<le> length es"
  by (auto simp: acquire_def split: if_splits dest: acquire_wait_shorter)

lemma reacquire_not_longer:
  "reacquire t c es s = Some (r, s', es') \<Longrightarrow> length es' \<le> length es"
proof (induction t c es s rule: reacquire.induct)
  case (1 t c es s)
  show ?case
  proof (cases "acquire t es s")
    case None
    with "1.prems" show ?thesis by (simp add: reacquire.simps)
  next
    case (Some a)
    obtain r1 s1 es1 where a: "a = (r1, s1, es1)" by (cases a)
    have le: "length es1 \<le> length es"
      using Some a acquire_not_longer by blast
    show ?thesis
    proof (cases r1)
      case (Inr b)
      with "1.prems" Some a le show ?thesis by (simp add: reacquire.simps)
    next
      case (Inl e)
      show ?thesis
      proof (cases "e = CancelledError")
        case True
        with "1.prems" Some a Inl have "reacquire t True es1 s1 = Some (r, s', es')"
          by (simp add: reacquire.simps)
        with "1.IH" [of a r1 "(s1, es1)" e s1 es1] Some a Inl True le show ?thesis by simp
      next
        case False
        with "1.prems" Some a Inl le show ?thesis by (simp add: reacquire.simps)
      qed
    qed
  qed
qed

lemma wait_value_shorter:
  "wait t es s = Some (Inr v, s', es') \<Longrightarrow> length es' < length es"
  unfolding wait_def
  by (auto simp: Let_def split: if_splits option.splits sum.splits prod.splits
           dest!: await_fut_shorter reacquire_not_longer)

text \<open>
  \<open>wait_for\<close> (lines 89 to 94): the predicate reads the guarded state; an exception of
  \<open>wait\<close> leaves the loop and the coroutine.
\<close>

function wait_for :: "tid \<Rightarrow> ('g \<Rightarrow> bool) \<Rightarrow> ('v, 'g) event list \<Rightarrow> ('v, 'g) cond
    \<Rightarrow> ((error + bool) \<times> ('v, 'g) cond \<times> ('v, 'g) event list) option" where
  "wait_for t predicate es s =
     (let result = predicate (guarded s) in
      if result then Some (Inr result, s, es)
      else (case wait t es s of
              None \<Rightarrow> None
            | Some (Inl e, s', es') \<Rightarrow> Some (Inl e, s', es')
            | Some (Inr v, s', es') \<Rightarrow> wait_for t predicate es' s'))"
  by pat_completeness auto
termination
  by (relation "measure (\<lambda>(t, p, es, s). length es)") (auto dest: wait_value_shorter)

declare wait_for.simps [simp del]

subsection \<open>Condition.notify and Condition.notify_all\<close>

text \<open>
  The \<open>for\<close> loop of \<open>notify\<close> (lines 100 to 107) over the deque, with the counter \<open>idx\<close>
  and the store of the futures as loop state. An exception of \<open>set_result\<close> would leave
  the loop with the store as it is by then.
\<close>

fun notify_loop :: "'v \<Rightarrow> int \<Rightarrow> int \<Rightarrow> fid list \<Rightarrow> (fid \<Rightarrow> 'v future)
    \<Rightarrow> (error + unit) \<times> (fid \<Rightarrow> 'v future)" where
  "notify_loop v n idx [] fs = (Inr (), fs)"
| "notify_loop v n idx (fut # rest) fs =
     (if idx \<ge> n then (Inr (), fs)
      else if \<not> is_done (fs fut) then
        (case set_result fut v fs of
           Inl e \<Rightarrow> (Inl e, fs)
         | Inr fs' \<Rightarrow> notify_loop v n (idx + 1) rest fs')
      else notify_loop v n idx rest fs)"

text \<open>
  \<open>notify\<close> and \<open>notify_all\<close> return nothing: the result is the exception, if any, and
  the state after the call. The defaults of the source (\<open>value = None\<close>, \<open>n = 1\<close>) are
  written out by the caller here.
\<close>

definition notify :: "'v \<Rightarrow> int \<Rightarrow> ('v, 'g) cond \<Rightarrow> (error + unit) \<times> ('v, 'g) cond" where
  "notify v n s =
     (if \<not> locked s then (Inl RuntimeError, s)
      else (let (r, fs) = notify_loop v n 0 (waiters s) (futs s) in (r, s\<lparr>futs := fs\<rparr>)))"

definition notify_all :: "'v \<Rightarrow> ('v, 'g) cond \<Rightarrow> (error + unit) \<times> ('v, 'g) cond" where
  "notify_all v s = notify v (int (length (waiters s))) s"

subsection \<open>Notions used in the properties\<close>

text \<open>The waiters that are still pending, oldest first.\<close>

definition pending :: "('v, 'g) cond \<Rightarrow> fid list" where
  "pending s = filter (\<lambda>f. futs s f = Pending) (waiters s)"

text \<open>The waiters that were pending in \<open>s\<close> and are done in \<open>s'\<close>, oldest first.\<close>

definition fulfilled :: "('v, 'g) cond \<Rightarrow> ('v, 'g) cond \<Rightarrow> fid list" where
  "fulfilled s s' = filter (\<lambda>f. futs s f = Pending \<and> futs s' f \<noteq> Pending) (waiters s)"

text \<open>\<open>a\<close> is in the queue and \<open>b\<close> stands behind the first occurrence of \<open>a\<close>.\<close>

fun enqueued_before :: "fid list \<Rightarrow> fid \<Rightarrow> fid \<Rightarrow> bool" where
  "enqueued_before [] a b = False"
| "enqueued_before (x # xs) a b = (if x = a then b \<in> set xs else enqueued_before xs a b)"

text \<open>
  Every \<open>wait\<close> appends a future that \<open>create_future\<close> has just made, so the queue
  never holds a future twice and never one that is yet to be created.
\<close>

definition queue_ok :: "('v, 'g) cond \<Rightarrow> bool" where
  "queue_ok s = (distinct (waiters s) \<and> list_all (\<lambda>f. f < next_fut s) (waiters s))"

text \<open>The state after the turns \<open>used\<close> of the event loop, when the coroutine stayed suspended.\<close>

definition run :: "('v, 'g) event list \<Rightarrow> ('v, 'g) cond \<Rightarrow> ('v, 'g) cond" where
  "run used s = fold (\<lambda>e. fst e) used s"

text \<open>
  The other tasks leave the handle \<open>fut\<close> alone during the turn \<open>e\<close>: the queue holds it
  as often after the turn as before.
\<close>

definition keeps_handle :: "fid \<Rightarrow> ('v, 'g) event \<Rightarrow> bool" where
  "keeps_handle fut e = (\<forall>s. count_list (waiters (fst e s)) fut = count_list (waiters s) fut)"

text \<open>
  The turns \<open>used\<close>, run from the state \<open>s\<close>, leave the observation \<open>f\<close> of the state as
  it is, each at the state that the run has reached by then.
\<close>

fun along :: "(('v, 'g) cond \<Rightarrow> 'a) \<Rightarrow> ('v, 'g) event list \<Rightarrow> ('v, 'g) cond \<Rightarrow> bool" where
  "along f [] s = True"
| "along f (e # used) s = (f (fst e s) = f s \<and> along f used (fst e s))"

section \<open>Properties\<close>

subsection \<open>The loop of notify\<close>

lemma not_done_iff: "\<not> is_done x \<longleftrightarrow> x = Pending"
  by (cases x) simp_all

lemma notify_loop_take:
  "distinct ws \<Longrightarrow>
   notify_loop v n idx ws fs =
     (Inr (), \<lambda>f. if f \<in> set (take (nat (n - idx)) (filter (\<lambda>f. fs f = Pending) ws))
                   then Result v else fs f)"
proof (induction ws arbitrary: idx fs)
  case Nil
  then show ?case by simp
next
  case (Cons fut rest)
  show ?case
  proof (cases "idx \<ge> n")
    case True
    then show ?thesis by simp
  next
    case False
    then have pos: "nat (n - idx) = Suc (nat (n - (idx + 1)))" by simp
    show ?thesis
    proof (cases "fs fut = Pending")
      case True
      let ?fs = "fs(fut := Result v)"
      have same: "filter (\<lambda>f. ?fs f = Pending) rest = filter (\<lambda>f. fs f = Pending) rest"
        using Cons.prems by (intro filter_cong) auto
      have "notify_loop v n idx (fut # rest) fs = notify_loop v n (idx + 1) rest ?fs"
        using False True by (simp add: set_result_def)
      also have "\<dots> = (Inr (), \<lambda>f. if f \<in> set (take (nat (n - (idx + 1)))
                           (filter (\<lambda>f. ?fs f = Pending) rest)) then Result v else ?fs f)"
        using Cons.prems by (intro Cons.IH) simp
      also have "\<dots> = (Inr (), \<lambda>f. if f \<in> set (take (nat (n - idx))
                           (filter (\<lambda>f. fs f = Pending) (fut # rest))) then Result v else fs f)"
        unfolding same using True by (auto simp: pos fun_eq_iff)
      finally show ?thesis .
    next
      case nd: False
      then have "notify_loop v n idx (fut # rest) fs = notify_loop v n idx rest fs"
        using False by (simp add: not_done_iff)
      with Cons.IH [of idx fs] Cons.prems nd show ?thesis by simp
    qed
  qed
qed

lemma notify_loop_all:
  "int (length (filter (\<lambda>f. fs f = Pending) ws)) \<le> n - idx \<Longrightarrow>
   notify_loop v n idx ws fs =
     (Inr (), \<lambda>f. if f \<in> set ws \<and> fs f = Pending then Result v else fs f)"
proof (induction ws arbitrary: idx fs)
  case Nil
  then show ?case by simp
next
  case (Cons fut rest)
  show ?case
  proof (cases "fs fut = Pending")
    case True
    let ?fs = "fs(fut := Result v)"
    from Cons.prems True have lt: "\<not> idx \<ge> n" by simp
    have "length (filter (\<lambda>f. ?fs f = Pending) rest) \<le> length (filter (\<lambda>f. fs f = Pending) rest)"
    proof -
      have "filter (\<lambda>f. ?fs f = Pending) rest = filter (\<lambda>f. f \<noteq> fut) (filter (\<lambda>f. fs f = Pending) rest)"
        by (auto intro: filter_cong)
      also have "length \<dots> \<le> length (filter (\<lambda>f. fs f = Pending) rest)"
        by (rule length_filter_le)
      finally show ?thesis .
    qed
    with Cons.prems True
    have "int (length (filter (\<lambda>f. ?fs f = Pending) rest)) \<le> n - (idx + 1)" by simp
    from Cons.IH [OF this]
    have "notify_loop v n (idx + 1) rest ?fs =
            (Inr (), \<lambda>f. if f \<in> set rest \<and> ?fs f = Pending then Result v else ?fs f)" .
    moreover have "notify_loop v n idx (fut # rest) fs = notify_loop v n (idx + 1) rest ?fs"
      using lt True by (simp add: set_result_def)
    ultimately show ?thesis using True by (auto simp: fun_eq_iff)
  next
    case False
    with Cons.prems have le: "int (length (filter (\<lambda>f. fs f = Pending) rest)) \<le> n - idx" by simp
    show ?thesis
    proof (cases "idx \<ge> n")
      case True
      with le have "length (filter (\<lambda>f. fs f = Pending) rest) = 0" by linarith
      then have "filter (\<lambda>f. fs f = Pending) rest = []" by (simp only: length_0_conv)
      then have "\<forall>f\<in>set rest. fs f \<noteq> Pending" by (simp add: filter_empty_conv)
      with True False show ?thesis by (auto simp: fun_eq_iff)
    next
      case lt: False
      with False have "notify_loop v n idx (fut # rest) fs = notify_loop v n idx rest fs"
        by (simp add: not_done_iff)
      with Cons.IH [OF le] False show ?thesis by (auto simp: fun_eq_iff)
    qed
  qed
qed

lemma notify_loop_none: "n \<le> idx \<Longrightarrow> notify_loop v n idx ws fs = (Inr (), fs)"
  by (cases ws) simp_all

lemma filter_take_distinct:
  "distinct xs \<Longrightarrow> filter (\<lambda>x. x \<in> set (take k xs)) xs = take k xs"
proof (induction xs arbitrary: k)
  case Nil
  then show ?case by simp
next
  case (Cons x xs)
  show ?case
  proof (cases k)
    case 0
    then show ?thesis by simp
  next
    case (Suc j)
    have "filter (\<lambda>y. y = x \<or> y \<in> set (take j xs)) xs = filter (\<lambda>y. y \<in> set (take j xs)) xs"
      using Cons.prems by (intro filter_cong) auto
    with Cons.IH [of j] Cons.prems Suc show ?thesis by simp
  qed
qed

lemma notify_held:
  assumes "locked s" and "distinct (waiters s)"
  shows "notify v n s =
           (Inr (), s\<lparr>futs := \<lambda>f. if f \<in> set (take (nat n) (pending s)) then Result v
                                     else futs s f\<rparr>)"
  using assms notify_loop_take [of "waiters s" v n 0 "futs s"]
  by (simp add: notify_def pending_def)

lemma fulfilled_notify:
  assumes "distinct (waiters s)"
  shows "fulfilled s (s\<lparr>futs := \<lambda>f. if f \<in> set (take k (pending s)) then Result v
                                       else futs s f\<rparr>) = take k (pending s)"
proof -
  let ?P = "\<lambda>f. futs s f = Pending"
  have "filter (\<lambda>f. ?P f \<and> (if f \<in> set (take k (filter ?P (waiters s))) then Result v
                                else futs s f) \<noteq> Pending) (waiters s)
        = filter (\<lambda>f. f \<in> set (take k (filter ?P (waiters s)))) (filter ?P (waiters s))"
    unfolding filter_filter by (intro filter_cong) auto
  also have "\<dots> = take k (filter ?P (waiters s))"
    using assms by (intro filter_take_distinct) simp
  finally show ?thesis by (simp add: fulfilled_def pending_def)
qed

subsection \<open>notify\<close>

text \<open>
  C2. Called by the task that holds the lock, with \<open>n \<ge> 1\<close>, \<open>notify\<close> raises nothing
  and fulfils the first \<open>min n k\<close> of the \<open>k\<close> pending waiters, each with the value \<open>v\<close>,
  and no other future changes; with fewer than \<open>n\<close> pending waiters all of them are
  fulfilled; the queue and the lock stay as they are, and on an empty queue the whole
  state does. The queue holds no future twice: that is part of \<open>queue_ok\<close>, which holds
  of the empty queue and which every method keeps.
\<close>

theorem notify_fulfils_min:
  assumes "lock_owner s = Some t" and "distinct (waiters s)" and "1 \<le> n"
  shows "\<exists>s'. notify v n s = (Inr (), s')
           \<and> fulfilled s s' = take (nat n) (pending s)
           \<and> length (fulfilled s s') = min (nat n) (length (pending s))
           \<and> (\<forall>f. futs s' f = (if f \<in> set (fulfilled s s') then Result v else futs s f))
           \<and> (length (pending s) \<le> nat n \<longrightarrow> fulfilled s s' = pending s)
           \<and> waiters s' = waiters s \<and> lock_owner s' = lock_owner s
           \<and> (waiters s = [] \<longrightarrow> s' = s)"
proof -
  let ?s' = "s\<lparr>futs := \<lambda>f. if f \<in> set (take (nat n) (pending s)) then Result v else futs s f\<rparr>"
  from assms have run: "notify v n s = (Inr (), ?s')"
    by (intro notify_held) (simp_all add: locked_def)
  have ful: "fulfilled s ?s' = take (nat n) (pending s)"
    using assms(2) by (rule fulfilled_notify)
  have len: "length (fulfilled s ?s') = min (nat n) (length (pending s))"
    unfolding ful by (simp add: min.commute)
  have sto: "\<forall>f. futs ?s' f = (if f \<in> set (fulfilled s ?s') then Result v else futs s f)"
    unfolding ful by simp
  have few: "length (pending s) \<le> nat n \<longrightarrow> fulfilled s ?s' = pending s"
    unfolding ful by simp
  have emp: "waiters s = [] \<longrightarrow> ?s' = s"
    by (simp add: pending_def)
  from run ful len sto few emp show ?thesis
    by (intro exI [of _ ?s']) simp
qed

theorem notify_fulfils_min_witness:
  "lock_owner \<lparr>lock_owner = Some 0, waiters = [0, 1, 2, 3],
       futs = (\<lambda>f. if f = 1 then Result (5::int) else Pending), next_fut = 4, guarded = ()\<rparr> = Some 0
   \<and> distinct [0, 1, 2, 3 :: nat] \<and> (1::int) \<le> 2
   \<and> (\<exists>s'. notify (7::int) 2 \<lparr>lock_owner = Some 0, waiters = [0, 1, 2, 3],
               futs = (\<lambda>f. if f = 1 then Result (5::int) else Pending), next_fut = 4, guarded = ()\<rparr>
             = (Inr (), s')
          \<and> fulfilled \<lparr>lock_owner = Some 0, waiters = [0, 1, 2, 3],
               futs = (\<lambda>f. if f = 1 then Result (5::int) else Pending), next_fut = 4, guarded = ()\<rparr> s'
             = [0, 2]
          \<and> waiters s' = [0, 1, 2, 3])"
proof -
  let ?s = "\<lparr>lock_owner = Some 0, waiters = [0, 1, 2, 3],
       futs = (\<lambda>f. if f = 1 then Result (5::int) else Pending), next_fut = 4, guarded = ()\<rparr>"
  from notify_fulfils_min [of ?s 0 2 "7::int"]
  obtain s' where "notify 7 2 ?s = (Inr (), s')" "fulfilled ?s s' = take (nat 2) (pending ?s)"
    "waiters s' = waiters ?s"
    by auto
  then have "notify 7 2 ?s = (Inr (), s') \<and> fulfilled ?s s' = [0, 2] \<and> waiters s' = [0, 1, 2, 3]"
    by (simp add: pending_def)
  then show ?thesis by auto
qed

text \<open>
  C10. With \<open>n \<le> 0\<close> the loop of \<open>notify\<close> stops before its first future: called under
  the lock, \<open>notify\<close> raises nothing and leaves the whole state, the queue and the lock
  with it, as it is.
\<close>

theorem notify_nonpositive:
  assumes "lock_owner s = Some t" and "n \<le> 0"
  shows "notify v n s = (Inr (), s)"
  using assms by (simp add: notify_def locked_def notify_loop_none)

theorem notify_nonpositive_witness:
  "(-1::int) \<le> 0
   \<and> notify (7::int) (-1) \<lparr>lock_owner = Some 0, waiters = [0, 1],
        futs = (\<lambda>f. Pending :: int future), next_fut = 2, guarded = ()\<rparr>
     = (Inr (), \<lparr>lock_owner = Some 0, waiters = [0, 1],
        futs = (\<lambda>f. Pending :: int future), next_fut = 2, guarded = ()\<rparr>)"
  using notify_nonpositive [of "\<lparr>lock_owner = Some 0, waiters = [0, 1],
        futs = (\<lambda>f. Pending :: int future), next_fut = 2, guarded = ()\<rparr>" 0 "-1" "7::int"]
  by simp

subsection \<open>notify\_all\<close>

text \<open>
  C3. In every state, also with futures in the queue that are done and not removed yet,
  \<open>notify_all v\<close> does what \<open>notify v k\<close> does for the number \<open>k\<close> of pending waiters;
  under the lock it raises nothing, gives the value \<open>v\<close> to every pending waiter of the
  queue and changes no other future.
\<close>

theorem notify_all_is_notify_pending:
  "notify_all v s = notify v (int (length (pending s))) s
   \<and> (locked s \<longrightarrow>
        notify_all v s =
          (Inr (), s\<lparr>futs := \<lambda>f. if f \<in> set (pending s) then Result v else futs s f\<rparr>))"
proof -
  let ?P = "\<lambda>f. futs s f = Pending"
  let ?fs = "\<lambda>f. if f \<in> set (waiters s) \<and> futs s f = Pending then Result v else futs s f"
  have "int (length (filter ?P (waiters s))) \<le> int (length (waiters s)) - 0"
    by simp
  then have a: "notify_loop v (int (length (waiters s))) 0 (waiters s) (futs s) = (Inr (), ?fs)"
    by (rule notify_loop_all)
  have "int (length (filter ?P (waiters s))) \<le> int (length (filter ?P (waiters s))) - 0"
    by simp
  then have b: "notify_loop v (int (length (filter ?P (waiters s)))) 0 (waiters s) (futs s)
                  = (Inr (), ?fs)"
    by (rule notify_loop_all)
  have c: "(\<lambda>f. if f \<in> set (pending s) then Result v else futs s f) = ?fs"
    by (auto simp: pending_def fun_eq_iff)
  show ?thesis
    unfolding c by (simp add: notify_all_def notify_def pending_def a b)
qed

theorem notify_all_is_notify_pending_witness:
  "locked \<lparr>lock_owner = Some 0, waiters = [0, 1, 2],
       futs = (\<lambda>f. if f = 1 then Result (5::int) else Pending), next_fut = 4, guarded = ()\<rparr>
   \<and> notify_all (7::int) \<lparr>lock_owner = Some 0, waiters = [0, 1, 2],
       futs = (\<lambda>f. if f = 1 then Result (5::int) else Pending), next_fut = 4, guarded = ()\<rparr>
     = notify 7 2 \<lparr>lock_owner = Some 0, waiters = [0, 1, 2],
       futs = (\<lambda>f. if f = 1 then Result (5::int) else Pending), next_fut = 4, guarded = ()\<rparr>
   \<and> map (futs (snd (notify_all (7::int) \<lparr>lock_owner = Some 0, waiters = [0, 1, 2],
       futs = (\<lambda>f. if f = 1 then Result (5::int) else Pending), next_fut = 4, guarded = ()\<rparr>)))
         [0, 1, 2, 3]
     = [Result 7, Result (5::int), Result 7, Pending]"
proof -
  let ?s = "\<lparr>lock_owner = Some 0, waiters = [0, 1, 2],
       futs = (\<lambda>f. if f = 1 then Result (5::int) else Pending), next_fut = 4, guarded = ()\<rparr>"
  have l: "locked ?s" by (simp add: locked_def)
  have p: "int (length (pending ?s)) = 2" by (simp add: pending_def)
  from notify_all_is_notify_pending [of "7::int" ?s] l
  have "notify_all 7 ?s = notify 7 (int (length (pending ?s))) ?s"
    and "notify_all 7 ?s =
          (Inr (), ?s\<lparr>futs := \<lambda>f. if f \<in> set (pending ?s) then Result 7 else futs ?s f\<rparr>)"
    by blast+
  then have "notify_all 7 ?s = notify 7 2 ?s"
    and "map (futs (snd (notify_all 7 ?s))) [0, 1, 2, 3] = [Result 7, Result 5, Result 7, Pending]"
    unfolding p by (simp_all add: pending_def)
  with l show ?thesis by simp
qed

subsection \<open>FIFO order\<close>

lemma enqueued_before_split:
  "enqueued_before ws a b \<Longrightarrow> \<exists>xs ys. ws = xs @ a # ys \<and> a \<notin> set xs \<and> b \<in> set ys"
proof (induction ws)
  case Nil
  then show ?case by simp
next
  case (Cons x ws)
  show ?case
  proof (cases "x = a")
    case True
    with Cons.prems have "x # ws = [] @ a # ws \<and> a \<notin> set [] \<and> b \<in> set ws" by simp
    then show ?thesis by blast
  next
    case False
    with Cons obtain xs ys where "ws = xs @ a # ys" "a \<notin> set xs" "b \<in> set ys" by auto
    with False have "x # ws = (x # xs) @ a # ys \<and> a \<notin> set (x # xs) \<and> b \<in> set ys" by simp
    then show ?thesis by blast
  qed
qed

lemma enqueued_before_mem: "enqueued_before ws a b \<Longrightarrow> b \<in> set ws"
  by (induction ws) (auto split: if_splits)

lemma enqueued_before_prefix:
  "distinct (xs @ a # ys) \<Longrightarrow> enqueued_before (xs @ a # ys) c a \<longleftrightarrow> c \<in> set xs"
proof (induction xs)
  case Nil
  then show ?case by (auto dest: enqueued_before_mem)
next
  case (Cons x xs)
  then show ?case by auto
qed

text \<open>
  C4, as the code has it. Let \<open>a\<close> stand before \<open>b\<close> in the queue and be pending. Then
  \<open>notify v 1\<close>, called under the lock, never fulfils \<open>b\<close>; it fulfils \<open>a\<close>, with the
  value \<open>v\<close>, exactly when no waiter that stands before \<open>a\<close> is pending: the one waiter
  it fulfils is the oldest pending one.
\<close>

theorem notify_one_fifo:
  assumes "lock_owner s = Some t" and "distinct (waiters s)"
    and "enqueued_before (waiters s) a b" and "futs s a = Pending"
  shows "\<exists>s'. notify v 1 s = (Inr (), s')
           \<and> b \<notin> set (fulfilled s s') \<and> futs s' b = futs s b
           \<and> (a \<in> set (fulfilled s s')
                \<longleftrightarrow> (\<forall>c. enqueued_before (waiters s) c a \<longrightarrow> futs s c \<noteq> Pending))
           \<and> (a \<in> set (fulfilled s s') \<longrightarrow> futs s' a = Result v)"
proof -
  let ?P = "\<lambda>f. futs s f = Pending"
  let ?s' = "s\<lparr>futs := \<lambda>f. if f \<in> set (take (nat 1) (pending s)) then Result v else futs s f\<rparr>"
  from assms(3) obtain xs ys where ws: "waiters s = xs @ a # ys" "a \<notin> set xs" "b \<in> set ys"
    by (blast dest: enqueued_before_split)
  from assms(2) ws have b: "b \<notin> set xs" "b \<noteq> a" by auto
  have pen: "pending s = filter ?P xs @ a # filter ?P ys"
    using assms(4) by (simp add: pending_def ws)
  have first: "take (nat 1) (pending s) = (if filter ?P xs = [] then [a] else [hd (filter ?P xs)])"
    by (cases "filter ?P xs") (simp_all add: pen)
  have hd_in: "filter ?P xs \<noteq> [] \<Longrightarrow> hd (filter ?P xs) \<in> set xs"
    by (metis filter_is_subset hd_in_set subsetD)
  from assms have run: "notify v 1 s = (Inr (), ?s')"
    by (intro notify_held) (simp_all add: locked_def)
  have ful: "fulfilled s ?s' = take (nat 1) (pending s)"
    using assms(2) by (rule fulfilled_notify)
  have nb: "b \<notin> set (take (nat 1) (pending s))"
    unfolding first using b hd_in by auto
  have ia: "a \<in> set (take (nat 1) (pending s)) \<longleftrightarrow> filter ?P xs = []"
    unfolding first using ws(2) hd_in by auto
  have older: "(\<forall>c. enqueued_before (waiters s) c a \<longrightarrow> futs s c \<noteq> Pending) \<longleftrightarrow> filter ?P xs = []"
    using assms(2) by (auto simp: ws(1) enqueued_before_prefix filter_empty_conv)
  have "notify v 1 s = (Inr (), ?s')
           \<and> b \<notin> set (fulfilled s ?s') \<and> futs ?s' b = futs s b
           \<and> (a \<in> set (fulfilled s ?s')
                \<longleftrightarrow> (\<forall>c. enqueued_before (waiters s) c a \<longrightarrow> futs s c \<noteq> Pending))
           \<and> (a \<in> set (fulfilled s ?s') \<longrightarrow> futs ?s' a = Result v)"
    unfolding ful older using run nb ia by simp
  then show ?thesis by (rule exI [of _ ?s'])
qed

theorem notify_one_fifo_witness:
  "lock_owner \<lparr>lock_owner = Some 0, waiters = [0, 1, 2],
       futs = (\<lambda>f. if f = 0 then Result (5::int) else Pending), next_fut = 3, guarded = ()\<rparr> = Some 0
   \<and> distinct [0, 1, 2 :: nat] \<and> enqueued_before [0, 1, 2] 1 2
   \<and> (\<exists>s'. notify (7::int) 1 \<lparr>lock_owner = Some 0, waiters = [0, 1, 2],
              futs = (\<lambda>f. if f = 0 then Result (5::int) else Pending), next_fut = 3, guarded = ()\<rparr>
            = (Inr (), s')
          \<and> futs s' 2 = Pending \<and> futs s' 1 = Result 7)"
proof -
  let ?s = "\<lparr>lock_owner = Some 0, waiters = [0, 1, 2],
       futs = (\<lambda>f. if f = 0 then Result (5::int) else Pending), next_fut = 3, guarded = ()\<rparr>"
  have older: "\<forall>c. enqueued_before (waiters ?s) c 1 \<longrightarrow> futs ?s c \<noteq> Pending"
    by simp
  from notify_one_fifo [of ?s 0 1 2 "7::int"] older
  obtain s' where "notify 7 1 ?s = (Inr (), s')" "futs s' 2 = futs ?s 2" "futs s' 1 = Result 7"
    by auto
  then have "notify 7 1 ?s = (Inr (), s') \<and> futs s' 2 = Pending \<and> futs s' 1 = Result 7"
    by simp
  then show ?thesis by auto
qed

text \<open>
  The claim C4 as it is written promises \<open>a\<close> the value whenever \<open>a\<close> stands before \<open>b\<close>
  and is pending. With three pending waiters 0, 1 and 2 in the queue, 1 stands before
  2 and is pending, and \<open>notify 7 1\<close> fulfils 0 and leaves 1 pending.
\<close>

theorem notify_one_not_second_counterexample:
  "enqueued_before (waiters \<lparr>lock_owner = Some 0, waiters = [0, 1, 2],
       futs = (\<lambda>f. Pending :: int future), next_fut = 3, guarded = ()\<rparr>) 1 2
   \<and> futs \<lparr>lock_owner = Some 0, waiters = [0, 1, 2],
       futs = (\<lambda>f. Pending :: int future), next_fut = 3, guarded = ()\<rparr> 1 = Pending
   \<and> fst (notify (7::int) 1 \<lparr>lock_owner = Some 0, waiters = [0, 1, 2],
       futs = (\<lambda>f. Pending :: int future), next_fut = 3, guarded = ()\<rparr>) = Inr ()
   \<and> map (futs (snd (notify (7::int) 1 \<lparr>lock_owner = Some 0, waiters = [0, 1, 2],
       futs = (\<lambda>f. Pending :: int future), next_fut = 3, guarded = ()\<rparr>))) [0, 1, 2]
     = [Result 7, Pending, Pending]"
  by (simp add: notify_def locked_def set_result_def)

subsection \<open>Calls without the lock\<close>

text \<open>
  C5, as the code has it. The three methods look at \<open>locked()\<close>, which says whether any
  task holds the lock. When no task holds it, \<open>wait\<close>, \<open>notify\<close> and \<open>notify_all\<close> raise
  \<open>RuntimeError\<close> and the state, the lock and the queue with it, is as before the call.
\<close>

theorem unlocked_calls_fail:
  assumes "\<not> locked s"
  shows "wait t es s = Some (Inl RuntimeError, s, es)
         \<and> notify v n s = (Inl RuntimeError, s)
         \<and> notify_all v s = (Inl RuntimeError, s)"
  using assms by (simp add: wait_def wait_enter_def notify_def notify_all_def)

theorem unlocked_calls_fail_witness:
  "\<not> locked \<lparr>lock_owner = None, waiters = [0], futs = (\<lambda>f. Pending :: int future),
       next_fut = 1, guarded = ()\<rparr>
   \<and> wait 0 [] \<lparr>lock_owner = None, waiters = [0], futs = (\<lambda>f. Pending :: int future),
       next_fut = 1, guarded = ()\<rparr>
     = Some (Inl RuntimeError, \<lparr>lock_owner = None, waiters = [0],
         futs = (\<lambda>f. Pending :: int future), next_fut = 1, guarded = ()\<rparr>, [])
   \<and> notify (7::int) 1 \<lparr>lock_owner = None, waiters = [0], futs = (\<lambda>f. Pending :: int future),
       next_fut = 1, guarded = ()\<rparr>
     = (Inl RuntimeError, \<lparr>lock_owner = None, waiters = [0],
         futs = (\<lambda>f. Pending :: int future), next_fut = 1, guarded = ()\<rparr>)
   \<and> notify_all (7::int) \<lparr>lock_owner = None, waiters = [0], futs = (\<lambda>f. Pending :: int future),
       next_fut = 1, guarded = ()\<rparr>
     = (Inl RuntimeError, \<lparr>lock_owner = None, waiters = [0],
         futs = (\<lambda>f. Pending :: int future), next_fut = 1, guarded = ()\<rparr>)"
proof -
  let ?s = "\<lparr>lock_owner = None, waiters = [0], futs = (\<lambda>f. Pending :: int future),
       next_fut = 1, guarded = ()\<rparr>"
  have u: "\<not> locked ?s" by (simp add: locked_def)
  from u unlocked_calls_fail [OF u, of 0 "[]" 7 1] show ?thesis by simp
qed

text \<open>
  The claim C5 as it is written speaks of the calling task not holding the lock. The
  code cannot tell who holds it: while task 1 holds the lock, task 0 calls \<open>notify\<close>
  and the call fulfils the waiter; task 0 calls \<open>wait\<close> and the call releases the lock
  of task 1, waits, and returns the value with task 0 as the holder.
\<close>

theorem foreign_lock_counterexample:
  "lock_owner \<lparr>lock_owner = Some 1, waiters = [0], futs = (\<lambda>f. Pending :: int future),
       next_fut = 1, guarded = ()\<rparr> \<noteq> Some 0
   \<and> fst (notify (7::int) 1 \<lparr>lock_owner = Some 1, waiters = [0],
       futs = (\<lambda>f. Pending :: int future), next_fut = 1, guarded = ()\<rparr>) = Inr ()
   \<and> futs (snd (notify (7::int) 1 \<lparr>lock_owner = Some 1, waiters = [0],
       futs = (\<lambda>f. Pending :: int future), next_fut = 1, guarded = ()\<rparr>)) 0 = Result 7
   \<and> (case wait 0 [(\<lambda>s. s\<lparr>futs := (futs s)(1 := Result 7)\<rparr>, False)]
          \<lparr>lock_owner = Some 1, waiters = [0], futs = (\<lambda>f. Pending :: int future),
           next_fut = 1, guarded = ()\<rparr> of
        None \<Rightarrow> False
      | Some (r, s', es') \<Rightarrow> r = Inr 7 \<and> lock_owner s' = Some 0 \<and> waiters s' = [0])"
  by (simp add: notify_def wait_def wait_enter_def wait_drain_def locked_def set_result_def
      release_def create_future_def deque_remove_def reacquire.simps acquire_def)

subsection \<open>wait\_for without the lock\<close>

text \<open>
  C6, as the code has it. \<open>wait_for\<close> has no check of its own; the check is the one of
  the \<open>wait\<close> it calls when the predicate is false. When no task holds the lock,
  \<open>wait_for\<close> raises \<open>RuntimeError\<close> if the predicate is false, and returns \<open>True\<close> if the
  predicate is true; in both cases the state is as before the call.
\<close>

theorem wait_for_unlocked:
  assumes "\<not> locked s"
  shows "wait_for t p es s =
           (if p (guarded s) then Some (Inr True, s, es) else Some (Inl RuntimeError, s, es))"
  using assms by (simp add: wait_for.simps [of t p es s] wait_def wait_enter_def)

theorem wait_for_unlocked_witness:
  "\<not> locked \<lparr>lock_owner = None, waiters = [], futs = (\<lambda>f. Pending :: int future),
       next_fut = 0, guarded = (0::nat)\<rparr>
   \<and> wait_for 0 (\<lambda>g. 0 < g) [] \<lparr>lock_owner = None, waiters = [],
       futs = (\<lambda>f. Pending :: int future), next_fut = 0, guarded = (0::nat)\<rparr>
     = Some (Inl RuntimeError, \<lparr>lock_owner = None, waiters = [],
         futs = (\<lambda>f. Pending :: int future), next_fut = 0, guarded = (0::nat)\<rparr>, [])"
proof -
  let ?s = "\<lparr>lock_owner = None, waiters = [], futs = (\<lambda>f. Pending :: int future),
       next_fut = 0, guarded = (0::nat)\<rparr>"
  have u: "\<not> locked ?s" by (simp add: locked_def)
  from u wait_for_unlocked [OF u, of 0 "\<lambda>g. 0 < g" "[]"] show ?thesis by simp
qed

text \<open>
  The claim C6 as it is written promises the error for every predicate. With a
  predicate that is true at the call, \<open>wait_for\<close> returns \<open>True\<close> although no task holds
  the lock.
\<close>

theorem wait_for_true_predicate_counterexample:
  "\<not> locked \<lparr>lock_owner = None, waiters = [], futs = (\<lambda>f. Pending :: int future),
       next_fut = 0, guarded = (1::nat)\<rparr>
   \<and> wait_for 0 (\<lambda>g. 0 < g) [] \<lparr>lock_owner = None, waiters = [],
       futs = (\<lambda>f. Pending :: int future), next_fut = 0, guarded = (1::nat)\<rparr>
     = Some (Inr True, \<lparr>lock_owner = None, waiters = [],
         futs = (\<lambda>f. Pending :: int future), next_fut = 0, guarded = (1::nat)\<rparr>, [])"
  by (simp add: locked_def wait_for.simps)

subsection \<open>wait returns with the lock\<close>

lemma run_Cons: "run (e # used) s = run used (fst e s)"
  by (simp add: run_def)

lemma run_append: "run (xs @ ys) s = run ys (run xs s)"
  by (simp add: run_def)

lemma run_keeps:
  "\<forall>e\<in>set used. keeps_handle fut e \<Longrightarrow>
   count_list (waiters (run used s)) fut = count_list (waiters s) fut"
  by (induction used arbitrary: s) (simp_all add: run_def keeps_handle_def)

lemma await_fut_trace:
  "await_fut fut es s = Some (r, s', es') \<Longrightarrow>
   \<exists>used. es = used @ es' \<and> s' = run used s
          \<and> ((\<exists>e\<in>set used. snd e) \<longrightarrow> r = Inl CancelledError)
          \<and> (r = Inl CancelledError \<or> (\<exists>v. r = Inr v \<and> futs s' fut = Result v))"
proof (induction es arbitrary: s)
  case Nil
  then show ?case by simp
next
  case (Cons ev es)
  obtain env cancel where ev: "ev = (env, cancel)" by (cases ev)
  let ?goal = "\<lambda>used. ev # es = used @ es' \<and> s' = run used s
          \<and> ((\<exists>e\<in>set used. snd e) \<longrightarrow> r = Inl CancelledError)
          \<and> (r = Inl CancelledError \<or> (\<exists>v. r = Inr v \<and> futs s' fut = Result v))"
  show ?case
  proof (cases "cancel \<or> futs (env s) fut \<noteq> Pending")
    case True
    with Cons.prems ev have "?goal [ev]"
      by (cases "futs (env s) fut") (auto simp: Let_def run_def split: if_splits)
    then show ?thesis by blast
  next
    case False
    with Cons.prems ev have "await_fut fut es (env s) = Some (r, s', es')"
      by (simp add: Let_def)
    from Cons.IH [OF this] obtain used where "es = used @ es'" "s' = run used (env s)"
      "(\<exists>e\<in>set used. snd e) \<longrightarrow> r = Inl CancelledError"
      "r = Inl CancelledError \<or> (\<exists>v. r = Inr v \<and> futs s' fut = Result v)" by blast
    with ev False have "?goal (ev # used)" by (simp add: run_Cons)
    then show ?thesis by blast
  qed
qed

lemma acquire_wait_trace:
  "acquire_wait t es s = Some (r, s', es') \<Longrightarrow>
   \<exists>used. es = used @ es' \<and> ((\<exists>e\<in>set used. snd e) \<longleftrightarrow> r = Inl CancelledError)
          \<and> (r = Inl CancelledError \<and> s' = run used s
              \<or> r = Inr True \<and> s' = (run used s)\<lparr>lock_owner := Some t\<rparr>)"
proof (induction es arbitrary: s)
  case Nil
  then show ?case by simp
next
  case (Cons ev es)
  obtain env cancel where ev: "ev = (env, cancel)" by (cases ev)
  let ?goal = "\<lambda>used. ev # es = used @ es'
          \<and> ((\<exists>e\<in>set used. snd e) \<longleftrightarrow> r = Inl CancelledError)
          \<and> (r = Inl CancelledError \<and> s' = run used s
              \<or> r = Inr True \<and> s' = (run used s)\<lparr>lock_owner := Some t\<rparr>)"
  show ?case
  proof (cases "cancel \<or> \<not> locked (env s)")
    case True
    with Cons.prems ev have "?goal [ev]"
      by (auto simp: Let_def run_def split: if_splits)
    then show ?thesis by blast
  next
    case False
    with Cons.prems ev have "acquire_wait t es (env s) = Some (r, s', es')"
      by (simp add: Let_def)
    from Cons.IH [OF this] obtain used where "es = used @ es'"
      "(\<exists>e\<in>set used. snd e) \<longleftrightarrow> r = Inl CancelledError"
      "r = Inl CancelledError \<and> s' = run used (env s)
         \<or> r = Inr True \<and> s' = (run used (env s))\<lparr>lock_owner := Some t\<rparr>" by blast
    with ev False have "?goal (ev # used)" by (simp add: run_Cons)
    then show ?thesis by blast
  qed
qed

lemma acquire_trace:
  assumes "acquire t es s = Some (r, s', es')"
  shows "\<exists>used. es = used @ es' \<and> ((\<exists>e\<in>set used. snd e) \<longleftrightarrow> r = Inl CancelledError)
          \<and> (r = Inl CancelledError \<and> s' = run used s
              \<or> r = Inr True \<and> s' = (run used s)\<lparr>lock_owner := Some t\<rparr>)"
proof (cases "locked s")
  case True
  with assms show ?thesis by (simp add: acquire_def acquire_wait_trace)
next
  case False
  with assms have "es = [] @ es' \<and> ((\<exists>e\<in>set []. snd e) \<longleftrightarrow> r = Inl CancelledError)
          \<and> (r = Inl CancelledError \<and> s' = run [] s
              \<or> r = Inr True \<and> s' = (run [] s)\<lparr>lock_owner := Some t\<rparr>)"
    by (auto simp: acquire_def run_def)
  then show ?thesis by blast
qed

lemma reacquire_trace:
  "reacquire t c es s = Some (r, s', es') \<Longrightarrow>
   \<exists>used. es = used @ es' \<and> r = Inr (c \<or> (\<exists>e\<in>set used. snd e))
          \<and> s' = (run used s)\<lparr>lock_owner := Some t\<rparr>"
proof (induction t c es s rule: reacquire.induct)
  case (1 t c es s)
  from "1.prems" obtain r1 s1 es1 where acq: "acquire t es s = Some (r1, s1, es1)"
    by (cases "acquire t es s") (auto simp: reacquire.simps [of t c es s])
  from acquire_trace [OF acq] obtain used1 where u1: "es = used1 @ es1"
    "(\<exists>e\<in>set used1. snd e) \<longleftrightarrow> r1 = Inl CancelledError"
    "r1 = Inl CancelledError \<and> s1 = run used1 s
       \<or> r1 = Inr True \<and> s1 = (run used1 s)\<lparr>lock_owner := Some t\<rparr>" by blast
  show ?case
  proof (cases "r1 = Inl CancelledError")
    case True
    with "1.prems" acq have again: "reacquire t True es1 s1 = Some (r, s', es')"
      by (simp add: reacquire.simps [of t c es s])
    from "1.IH" [of "(r1, s1, es1)" r1 "(s1, es1)" CancelledError s1 es1] acq True again
    obtain used2 where u2: "es1 = used2 @ es'" "r = Inr True"
      "s' = (run used2 s1)\<lparr>lock_owner := Some t\<rparr>"
      by auto
    from u1 u2 True have "es = (used1 @ used2) @ es'
        \<and> r = Inr (c \<or> (\<exists>e\<in>set (used1 @ used2). snd e))
        \<and> s' = (run (used1 @ used2) s)\<lparr>lock_owner := Some t\<rparr>"
      by (auto simp: run_append)
    then show ?thesis by blast
  next
    case False
    with u1 have ok: "r1 = Inr True" "s1 = (run used1 s)\<lparr>lock_owner := Some t\<rparr>"
      "\<not> (\<exists>e\<in>set used1. snd e)" by auto
    with "1.prems" acq have "r = Inr c" "s' = s1" "es' = es1"
      by (simp_all add: reacquire.simps [of t c es s])
    with ok u1(1) have "es = used1 @ es' \<and> r = Inr (c \<or> (\<exists>e\<in>set used1. snd e))
        \<and> s' = (run used1 s)\<lparr>lock_owner := Some t\<rparr>"
      by simp
    then show ?thesis by blast
  qed
qed

lemma acquire_wait_returns:
  "\<not> locked (g (run cs s)) \<Longrightarrow>
   \<exists>r s1 es1. acquire_wait t (cs @ (g, False) # rest) s = Some (r, s1, es1)
     \<and> (r = Inl CancelledError \<longrightarrow>
          (\<exists>used1 cs'. cs = used1 @ cs' \<and> used1 \<noteq> [] \<and> es1 = cs' @ (g, False) # rest
             \<and> s1 = run used1 s))"
proof (induction cs arbitrary: s)
  case Nil
  then show ?case by (simp add: run_def)
next
  case (Cons ev cs)
  obtain env cancel where ev: "ev = (env, cancel)" by (cases ev)
  show ?case
  proof (cases cancel)
    case True
    with ev have "acquire_wait t ((ev # cs) @ (g, False) # rest) s
                    = Some (Inl CancelledError, env s, cs @ (g, False) # rest)"
      by simp
    moreover have "ev # cs = [ev] @ cs \<and> [ev] \<noteq> [] \<and> env s = run [ev] s"
      by (simp add: ev run_def)
    ultimately show ?thesis by blast
  next
    case False
    show ?thesis
    proof (cases "locked (env s)")
      case free: False
      with ev False show ?thesis by simp
    next
      case True
      from Cons.prems ev have "\<not> locked (g (run cs (env s)))" by (simp add: run_Cons)
      from this Cons.IH [of "env s"] obtain r s1 es1 where
        step: "acquire_wait t (cs @ (g, False) # rest) (env s) = Some (r, s1, es1)"
        and canc: "r = Inl CancelledError \<longrightarrow>
          (\<exists>used1 cs'. cs = used1 @ cs' \<and> used1 \<noteq> [] \<and> es1 = cs' @ (g, False) # rest
             \<and> s1 = run used1 (env s))"
        by blast
      from ev False True step
      have run: "acquire_wait t ((ev # cs) @ (g, False) # rest) s = Some (r, s1, es1)"
        by simp
      have "r = Inl CancelledError \<longrightarrow>
          (\<exists>used1 cs'. ev # cs = used1 @ cs' \<and> used1 \<noteq> [] \<and> es1 = cs' @ (g, False) # rest
             \<and> s1 = run used1 s)"
      proof
        assume "r = Inl CancelledError"
        with canc obtain used1 cs' where "cs = used1 @ cs'" "es1 = cs' @ (g, False) # rest"
          "s1 = run used1 (env s)" by blast
        with ev have "ev # cs = (ev # used1) @ cs' \<and> ev # used1 \<noteq> []
            \<and> es1 = cs' @ (g, False) # rest \<and> s1 = run (ev # used1) s"
          by (simp add: run_Cons)
        then show "\<exists>used1 cs'. ev # cs = used1 @ cs' \<and> used1 \<noteq> []
            \<and> es1 = cs' @ (g, False) # rest \<and> s1 = run used1 s"
          by blast
      qed
      with run show ?thesis by blast
    qed
  qed
qed

text \<open>
  The loop ends: it returns at the latest in the first turn that throws no cancellation
  and leaves the lock free, however many cancellations came before.
\<close>

lemma reacquire_returns:
  "\<not> locked (g (run cs s)) \<Longrightarrow> reacquire t c (cs @ (g, False) # rest) s \<noteq> None"
proof (induction cs arbitrary: s c rule: length_induct)
  case (1 cs)
  let ?es = "cs @ (g, False) # rest"
  show ?case
  proof (cases "locked s")
    case False
    then show ?thesis by (simp add: reacquire.simps [of t c ?es s] acquire_def)
  next
    case True
    from "1.prems" acquire_wait_returns [of g cs s t rest] obtain r s1 es1 where
      step: "acquire_wait t ?es s = Some (r, s1, es1)"
      and canc: "r = Inl CancelledError \<longrightarrow>
          (\<exists>used1 cs'. cs = used1 @ cs' \<and> used1 \<noteq> [] \<and> es1 = cs' @ (g, False) # rest
             \<and> s1 = run used1 s)"
      by blast
    from True step have acq: "acquire t ?es s = Some (r, s1, es1)" by (simp add: acquire_def)
    show ?thesis
    proof (cases "r = Inl CancelledError")
      case False
      with acq show ?thesis
        by (cases r) (simp_all add: reacquire.simps [of t c ?es s])
    next
      case cancelled: True
      with canc obtain used1 cs' where u: "cs = used1 @ cs'" "used1 \<noteq> []"
        "es1 = cs' @ (g, False) # rest" "s1 = run used1 s" by blast
      from u(1,2) have shorter: "length cs' < length cs" by simp
      from "1.prems" u(1,4) have "\<not> locked (g (run cs' s1))" by (simp add: run_append)
      with "1.IH" shorter have "reacquire t True (cs' @ (g, False) # rest) s1 \<noteq> None"
        by blast
      with acq cancelled u(3) show ?thesis
        by (simp add: reacquire.simps [of t c ?es s])
    qed
  qed
qed

lemma wait_enter_error: "wait_enter s = Inl e \<Longrightarrow> e = RuntimeError \<and> \<not> locked s"
  by (auto simp: wait_enter_def release_def split: if_splits prod.splits)

lemma wait_enter_ok:
  "locked s \<Longrightarrow>
   wait_enter s = Inr (next_fut s, s\<lparr>lock_owner := None, futs := (futs s)(next_fut s := Pending),
                                      next_fut := next_fut s + 1,
                                      waiters := waiters s @ [next_fut s]\<rparr>)"
  by (simp add: wait_enter_def release_def create_future_def)

lemma wait_parts:
  assumes "wait t es s = Some (r, s', es')" and "wait_enter s = Inr (fut, s3)"
  shows "\<exists>r1 s4 es1 r2 s5 c used1 used2.
           await_fut fut es s3 = Some (r1, s4, es1)
         \<and> wait_drain fut r1 s4 = (r2, s5)
         \<and> reacquire t False es1 s5 = Some (Inr c, s', es')
         \<and> es = used1 @ es1 \<and> s4 = run used1 s3
         \<and> ((\<exists>e\<in>set used1. snd e) \<longrightarrow> r1 = Inl CancelledError)
         \<and> (r1 = Inl CancelledError \<or> (\<exists>v. r1 = Inr v))
         \<and> es1 = used2 @ es' \<and> c = (\<exists>e\<in>set used2. snd e)
         \<and> s' = (run used2 s5)\<lparr>lock_owner := Some t\<rparr>
         \<and> r = (if c then Inl CancelledError else r2)"
proof -
  from assms obtain r1 s4 es1 where aw: "await_fut fut es s3 = Some (r1, s4, es1)"
    by (cases "await_fut fut es s3") (auto simp: wait_def)
  from await_fut_trace [OF aw] obtain used1 where
    u1: "es = used1 @ es1" "s4 = run used1 s3"
      "(\<exists>e\<in>set used1. snd e) \<longrightarrow> r1 = Inl CancelledError"
      "r1 = Inl CancelledError \<or> (\<exists>v. r1 = Inr v)"
    by blast
  obtain r2 s5 where dr: "wait_drain fut r1 s4 = (r2, s5)"
    by (cases "wait_drain fut r1 s4")
  from assms aw dr obtain rc s6 es2 where re: "reacquire t False es1 s5 = Some (rc, s6, es2)"
    by (cases "reacquire t False es1 s5") (auto simp: wait_def)
  from reacquire_trace [OF re] obtain used2 where
    u2: "es1 = used2 @ es2" "rc = Inr (\<exists>e\<in>set used2. snd e)"
      "s6 = (run used2 s5)\<lparr>lock_owner := Some t\<rparr>"
    by auto
  from assms aw dr re u2(2) have "s' = s6" "es' = es2"
    "r = (if (\<exists>e\<in>set used2. snd e) then Inl CancelledError else r2)"
    by (simp_all add: wait_def)
  with aw dr re u1 u2 show ?thesis by blast
qed

text \<open>
  C1. Whenever \<open>wait\<close> returns, with a value or with an exception other than the
  \<open>RuntimeError\<close> of its entry check, the calling task holds the lock. The call then went
  through its pieces in order, and its last piece, the loop around \<open>acquire\<close>, ended
  with the lock taken; a cancellation during that loop (a cancelling event among those
  the loop used) did not end the loop, and is raised after it in place of the outcome
  of the wait. The loop does return: at the latest in the first turn that throws no
  cancellation and leaves the lock free.
\<close>

theorem wait_returns_holding_lock:
  assumes "wait t es s = Some (r, s', es')" and "r \<noteq> Inl RuntimeError"
  shows "lock_owner s' = Some t
       \<and> (\<exists>fut s3 r1 s4 es1 r2 s5 c used.
             wait_enter s = Inr (fut, s3)
           \<and> await_fut fut es s3 = Some (r1, s4, es1)
           \<and> wait_drain fut r1 s4 = (r2, s5)
           \<and> reacquire t False es1 s5 = Some (Inr c, s', es')
           \<and> es1 = used @ es' \<and> c = (\<exists>e\<in>set used. snd e)
           \<and> r = (if c then Inl CancelledError else r2))
       \<and> (\<forall>g cs rest c s0. \<not> locked (g (run cs s0)) \<longrightarrow>
             reacquire t c (cs @ (g, False) # rest) (s0 :: ('a, 'b) cond) \<noteq> None)"
proof -
  from assms obtain fut s3 where en: "wait_enter s = Inr (fut, s3)"
    by (cases "wait_enter s") (auto simp: wait_def dest: wait_enter_error)
  from wait_parts [OF assms(1) en] obtain r1 s4 es1 r2 s5 c used where
    "await_fut fut es s3 = Some (r1, s4, es1)" "wait_drain fut r1 s4 = (r2, s5)"
    "reacquire t False es1 s5 = Some (Inr c, s', es')"
    "es1 = used @ es'" "c = (\<exists>e\<in>set used. snd e)"
    "s' = (run used s5)\<lparr>lock_owner := Some t\<rparr>" "r = (if c then Inl CancelledError else r2)"
    by blast
  with en have "lock_owner s' = Some t
       \<and> (\<exists>fut s3 r1 s4 es1 r2 s5 c used.
             wait_enter s = Inr (fut, s3)
           \<and> await_fut fut es s3 = Some (r1, s4, es1)
           \<and> wait_drain fut r1 s4 = (r2, s5)
           \<and> reacquire t False es1 s5 = Some (Inr c, s', es')
           \<and> es1 = used @ es' \<and> c = (\<exists>e\<in>set used. snd e)
           \<and> r = (if c then Inl CancelledError else r2))"
    by auto
  moreover have "\<forall>g cs rest c s0. \<not> locked (g (run cs s0)) \<longrightarrow>
             reacquire t c (cs @ (g, False) # rest) (s0 :: ('a, 'b) cond) \<noteq> None"
    by (simp add: reacquire_returns)
  ultimately show ?thesis by simp
qed

theorem wait_returns_holding_lock_witness:
  "\<exists>s'. wait 0 [(\<lambda>s. s\<lparr>lock_owner := Some 1, futs := (futs s)(0 := Result 7)\<rparr>, False),
                 (\<lambda>s. s, True), (\<lambda>s. s, True),
                 (\<lambda>s. s\<lparr>lock_owner := None\<rparr>, False)]
          \<lparr>lock_owner = Some 0, waiters = [], futs = (\<lambda>f. Pending :: int future),
           next_fut = 0, guarded = ()\<rparr>
        = Some (Inl CancelledError, s', [])
      \<and> Inl CancelledError \<noteq> (Inl RuntimeError :: error + int)
      \<and> lock_owner s' = Some 0"
proof -
  let ?es = "[(\<lambda>s. s\<lparr>lock_owner := Some 1, futs := (futs s)(0 := Result 7)\<rparr>, False),
              (\<lambda>s. s, True), (\<lambda>s. s, True),
              (\<lambda>s. s\<lparr>lock_owner := None\<rparr>, False)]
             :: (int, unit) event list"
  let ?s = "\<lparr>lock_owner = Some 0, waiters = [], futs = (\<lambda>f. Pending :: int future),
           next_fut = 0, guarded = ()\<rparr>"
  have "\<exists>s'. wait 0 ?es ?s = Some (Inl CancelledError, s', [])"
    by (simp add: wait_def wait_enter_def wait_drain_def locked_def release_def
        create_future_def deque_remove_def reacquire.simps acquire_def)
  then obtain s' where run: "wait 0 ?es ?s = Some (Inl CancelledError, s', [])" ..
  have ne: "(Inl CancelledError :: error + int) \<noteq> Inl RuntimeError" by simp
  from wait_returns_holding_lock [OF run ne] have "lock_owner s' = Some 0" by (rule conjunct1)
  with run show ?thesis by blast
qed

subsection \<open>Cancellation wins over a delivered value\<close>

lemma wait_drain_present:
  "fut \<in> set (waiters s) \<Longrightarrow> wait_drain fut r s = (r, s\<lparr>waiters := remove1 fut (waiters s)\<rparr>)"
  by (simp add: wait_drain_def deque_remove_def)

lemma wait_drain_result:
  "wait_drain fut r s = (r', s') \<Longrightarrow> r' = r \<or> r' = Inl ValueError"
  by (auto simp: wait_drain_def deque_remove_def split: if_splits)

lemma in_set_count_list: "x \<in> set xs \<longleftrightarrow> 0 < count_list xs x"
  using count_list_0_iff [of xs x] by auto

lemma count_list_remove1: "count_list (remove1 x xs) x = count_list xs x - 1"
  by (induction xs) auto

lemma wait_used:
  assumes "locked s" and "wait t es s = Some (r, s', es')" and "es = used @ es'"
    and "\<forall>e\<in>set used. keeps_handle (next_fut s) e"
  shows "\<exists>r1 s4 used1 used2 c.
           used = used1 @ used2
         \<and> s4 = run used1 (s\<lparr>lock_owner := None, futs := (futs s)(next_fut s := Pending),
                               next_fut := next_fut s + 1, waiters := waiters s @ [next_fut s]\<rparr>)
         \<and> next_fut s \<in> set (waiters s4)
         \<and> count_list (waiters s4) (next_fut s) = count_list (waiters s) (next_fut s) + 1
         \<and> ((\<exists>e\<in>set used1. snd e) \<longrightarrow> r1 = Inl CancelledError)
         \<and> (r1 = Inl CancelledError \<or> (\<exists>v. r1 = Inr v))
         \<and> c = (\<exists>e\<in>set used2. snd e)
         \<and> s' = (run used2 (s4\<lparr>waiters := remove1 (next_fut s) (waiters s4)\<rparr>))\<lparr>lock_owner := Some t\<rparr>
         \<and> r = (if c then Inl CancelledError else r1)"
proof -
  let ?fut = "next_fut s"
  let ?s3 = "s\<lparr>lock_owner := None, futs := (futs s)(?fut := Pending),
               next_fut := ?fut + 1, waiters := waiters s @ [?fut]\<rparr>"
  from assms(1) have en: "wait_enter s = Inr (?fut, ?s3)" by (rule wait_enter_ok)
  from wait_parts [OF assms(2) en] obtain r1 s4 es1 r2 s5 c used1 used2 where
    parts: "wait_drain ?fut r1 s4 = (r2, s5)"
      "es = used1 @ es1" "s4 = run used1 ?s3"
      "(\<exists>e\<in>set used1. snd e) \<longrightarrow> r1 = Inl CancelledError"
      "r1 = Inl CancelledError \<or> (\<exists>v. r1 = Inr v)"
      "es1 = used2 @ es'" "c = (\<exists>e\<in>set used2. snd e)"
      "s' = (run used2 s5)\<lparr>lock_owner := Some t\<rparr>"
      "r = (if c then Inl CancelledError else r2)"
    by blast
  from parts(2,6) assms(3) have used: "used = used1 @ used2" by simp
  with assms(4) have "\<forall>e\<in>set used1. keeps_handle ?fut e" by simp
  then have "count_list (waiters s4) ?fut = count_list (waiters ?s3) ?fut"
    unfolding parts(3) by (rule run_keeps)
  then have cnt: "count_list (waiters s4) ?fut = count_list (waiters s) ?fut + 1" by simp
  then have mem: "?fut \<in> set (waiters s4)" by (simp add: in_set_count_list)
  with parts(1) have "r2 = r1" "s5 = s4\<lparr>waiters := remove1 ?fut (waiters s4)\<rparr>"
    by (simp_all add: wait_drain_present)
  with used cnt mem parts show ?thesis by blast
qed

text \<open>
  C9. Let \<open>wait\<close> be called under the lock and return, and let the other tasks leave its
  handle in the queue. If a cancellation was thrown into the task during one of the
  turns that the call used, at the first suspension point (also when the future has a
  value by then) or during the re-acquisition (when \<open>await fut\<close> has returned the value
  already), then \<open>wait\<close> raises \<open>CancelledError\<close>: it returns no value.
\<close>

theorem cancellation_beats_value:
  assumes "locked s" and "wait t es s = Some (r, s', es')" and "es = used @ es'"
    and "\<exists>e\<in>set used. snd e" and "\<forall>e\<in>set used. keeps_handle (next_fut s) e"
  shows "r = Inl CancelledError \<and> (\<forall>v. r \<noteq> Inr v)"
proof -
  from wait_used [OF assms(1,2,3,5)] obtain r1 used1 used2 c where
    u: "used = used1 @ used2" "(\<exists>e\<in>set used1. snd e) \<longrightarrow> r1 = Inl CancelledError"
       "c = (\<exists>e\<in>set used2. snd e)" "r = (if c then Inl CancelledError else r1)"
    by blast
  from assms(4) u(1) have "(\<exists>e\<in>set used1. snd e) \<or> (\<exists>e\<in>set used2. snd e)" by auto
  with u show ?thesis by auto
qed

text \<open>
  The tie: in one turn a notifier takes the lock, gives the handle the value 7 and
  releases the lock, and the waiting task is cancelled.
\<close>

theorem cancellation_beats_value_witness:
  "\<exists>s'. locked \<lparr>lock_owner = Some 0, waiters = [], futs = (\<lambda>f. Pending :: int future),
           next_fut = 0, guarded = ()\<rparr>
      \<and> wait 0 [(\<lambda>s. s\<lparr>futs := (futs s)(0 := Result 7)\<rparr>, True)]
          \<lparr>lock_owner = Some 0, waiters = [], futs = (\<lambda>f. Pending :: int future),
           next_fut = 0, guarded = ()\<rparr>
        = Some (Inl CancelledError, s', [])
      \<and> futs s' 0 = Result 7"
proof -
  let ?e = "(\<lambda>s. s\<lparr>futs := (futs s)(0 := Result 7)\<rparr>, True) :: (int, unit) event"
  let ?s = "\<lparr>lock_owner = Some 0, waiters = [], futs = (\<lambda>f. Pending :: int future),
           next_fut = 0, guarded = ()\<rparr>"
  have l: "locked ?s" by (simp add: locked_def)
  have k: "\<forall>e\<in>set [?e]. keeps_handle (next_fut ?s) e" by (simp add: keeps_handle_def)
  have c: "\<exists>e\<in>set [?e]. snd e" by simp
  have "\<exists>r s'. wait 0 [?e] ?s = Some (r, s', []) \<and> futs s' 0 = Result 7"
    by (simp add: wait_def wait_enter_def wait_drain_def locked_def release_def
        create_future_def deque_remove_def reacquire.simps acquire_def)
  then obtain r s' where run: "wait 0 [?e] ?s = Some (r, s', [])" "futs s' 0 = Result 7"
    by blast
  from cancellation_beats_value [OF l run(1) _ c k] have "r = Inl CancelledError" by simp
  with l run show ?thesis by blast
qed

subsection \<open>Who removes a handle from the queue\<close>

lemma notify_waiters: "waiters (snd (notify v n s)) = waiters s"
  by (simp add: notify_def split: prod.splits)

lemma notify_all_waiters: "waiters (snd (notify_all v s)) = waiters s"
  by (simp add: notify_all_def notify_waiters)

lemma remove1_others: "filter (\<lambda>g. g \<noteq> x) (remove1 x xs) = filter (\<lambda>g. g \<noteq> x) xs"
  by (induction xs) auto

lemma queue_ok_fresh: "queue_ok s \<Longrightarrow> count_list (waiters s) (next_fut s) = 0"
  by (auto simp: queue_ok_def list_all_iff count_list_0_iff)

text \<open>The pieces of the methods keep the queue free of duplicates and of unborn futures.\<close>

lemma queue_ok_preserved:
  "queue_ok s \<Longrightarrow>
     queue_ok (snd (notify v n s)) \<and> queue_ok (snd (notify_all v s))
   \<and> (\<forall>fut s'. wait_enter s = Inr (fut, s') \<longrightarrow> queue_ok s')
   \<and> queue_ok (snd (wait_drain fut r s))
   \<and> queue_ok (s\<lparr>lock_owner := x\<rparr>)"
  by (auto simp: queue_ok_def notify_all_def notify_def wait_enter_def release_def
      create_future_def wait_drain_def deque_remove_def list_all_iff
      split: prod.splits if_splits dest: notin_set_remove1)

lemma along_run: "along f used s \<Longrightarrow> f (run used s) = f s"
  by (induction used arbitrary: s) (simp_all add: run_def)

lemma wait_effect:
  assumes "wait t es s = Some (r, s', es')" and "r \<noteq> Inl RuntimeError"
  shows "\<exists>s3 used1 used2 r1 s4.
           wait_enter s = Inr (next_fut s, s3)
         \<and> waiters s3 = waiters s @ [next_fut s]
         \<and> es = used1 @ used2 @ es'
         \<and> await_fut (next_fut s) es s3 = Some (r1, s4, used2 @ es')
         \<and> s4 = run used1 s3
         \<and> (r1 = Inl CancelledError \<or> (\<exists>v. r1 = Inr v))
         \<and> (if next_fut s \<in> set (waiters s4)
             then s' = (run used2 (s4\<lparr>waiters := remove1 (next_fut s) (waiters s4)\<rparr>))
                         \<lparr>lock_owner := Some t\<rparr>
                  \<and> (r = r1 \<or> r = Inl CancelledError)
             else s' = (run used2 s4)\<lparr>lock_owner := Some t\<rparr>
                  \<and> (r = Inl ValueError \<or> r = Inl CancelledError))"
proof -
  let ?fut = "next_fut s"
  let ?s3 = "s\<lparr>lock_owner := None, futs := (futs s)(?fut := Pending),
               next_fut := ?fut + 1, waiters := waiters s @ [?fut]\<rparr>"
  have l: "locked s"
  proof (rule ccontr)
    assume "\<not> locked s"
    then have "wait t es s = Some (Inl RuntimeError, s, es)"
      by (simp add: wait_def wait_enter_def)
    with assms show False by auto
  qed
  then have en: "wait_enter s = Inr (?fut, ?s3)" by (rule wait_enter_ok)
  from wait_parts [OF assms(1) en] obtain r1 s4 es1 r2 s5 c used1 used2 where
    parts: "await_fut ?fut es ?s3 = Some (r1, s4, es1)"
      "wait_drain ?fut r1 s4 = (r2, s5)"
      "es = used1 @ es1" "s4 = run used1 ?s3"
      "r1 = Inl CancelledError \<or> (\<exists>v. r1 = Inr v)"
      "es1 = used2 @ es'"
      "s' = (run used2 s5)\<lparr>lock_owner := Some t\<rparr>"
      "r = (if c then Inl CancelledError else r2)"
    by blast
  have tail: "if ?fut \<in> set (waiters s4)
             then s' = (run used2 (s4\<lparr>waiters := remove1 ?fut (waiters s4)\<rparr>))
                         \<lparr>lock_owner := Some t\<rparr>
                  \<and> (r = r1 \<or> r = Inl CancelledError)
             else s' = (run used2 s4)\<lparr>lock_owner := Some t\<rparr>
                  \<and> (r = Inl ValueError \<or> r = Inl CancelledError)"
  proof (cases "?fut \<in> set (waiters s4)")
    case True
    with parts(2) have "r2 = r1" "s5 = s4\<lparr>waiters := remove1 ?fut (waiters s4)\<rparr>"
      by (simp_all add: wait_drain_present)
    with True parts(7,8) show ?thesis by simp
  next
    case False
    with parts(2) have "r2 = Inl ValueError" "s5 = s4"
      by (simp_all add: wait_drain_def deque_remove_def)
    with False parts(7,8) show ?thesis by simp
  qed
  have "wait_enter s = Inr (?fut, ?s3) \<and> waiters ?s3 = waiters s @ [?fut]
      \<and> es = used1 @ used2 @ es'
      \<and> await_fut ?fut es ?s3 = Some (r1, s4, used2 @ es')
      \<and> s4 = run used1 ?s3
      \<and> (r1 = Inl CancelledError \<or> (\<exists>v. r1 = Inr v))"
    using en parts by simp
  with tail show ?thesis by blast
qed

text \<open>
  C8. \<open>notify\<close> and \<open>notify_all\<close> leave the queue as it is. The inner \<open>finally\<close> of \<open>wait\<close>
  removes the handle of the call, whatever the outcome \<open>r\<close> of \<open>await fut\<close> was (a value
  or a cancellation), and nothing else: the queue is shorter by exactly one, the other
  handles keep their places, and no future changes.

  A \<open>wait\<close> that returns has done to the queue exactly this. At its entry it appended
  one new handle, the future \<open>next_fut s\<close>, behind the waiters of the queue. The turns
  \<open>used1\<close> passed while it was suspended on the handle. When resumed, by a value or by a
  cancellation, it removed that one handle from the queue as the turns had left it,
  and nothing else; the turns \<open>used2\<close> passed while it took the lock again, and the
  state at the return is the state they left, with the caller as holder of the lock.
  (Had another task taken the handle out meanwhile, \<open>wait\<close> would remove nothing and
  raise.) So, when the other turns do not move this handle, the queue holds it exactly
  once while the call is suspended and not at all after the return; and when the other
  turns leave the queue alone, the queue at the return is the queue at the call.
\<close>

theorem handle_removed_once:
  "waiters (snd (notify v n s)) = waiters s
   \<and> waiters (snd (notify_all v s)) = waiters s
   \<and> (fut \<in> set (waiters s) \<longrightarrow>
        (\<exists>s'. wait_drain fut r s = (r, s')
            \<and> waiters s' = remove1 fut (waiters s)
            \<and> length (waiters s') + 1 = length (waiters s)
            \<and> count_list (waiters s') fut + 1 = count_list (waiters s) fut
            \<and> filter (\<lambda>g. g \<noteq> fut) (waiters s') = filter (\<lambda>g. g \<noteq> fut) (waiters s)
            \<and> futs s' = futs s \<and> lock_owner s' = lock_owner s))
   \<and> (wait t es s = Some (r', s'', es') \<and> r' \<noteq> Inl RuntimeError \<longrightarrow>
        (\<exists>s3 used1 used2 r1 s4.
            wait_enter s = Inr (next_fut s, s3)
          \<and> waiters s3 = waiters s @ [next_fut s]
          \<and> es = used1 @ used2 @ es'
          \<and> await_fut (next_fut s) es s3 = Some (r1, s4, used2 @ es')
          \<and> s4 = run used1 s3
          \<and> (if next_fut s \<in> set (waiters s4)
              then s'' = (run used2 (s4\<lparr>waiters := remove1 (next_fut s) (waiters s4)\<rparr>))
                           \<lparr>lock_owner := Some t\<rparr>
                   \<and> (r' = r1 \<or> r' = Inl CancelledError)
              else s'' = (run used2 s4)\<lparr>lock_owner := Some t\<rparr>
                   \<and> (r' = Inl ValueError \<or> r' = Inl CancelledError))
          \<and> (queue_ok s
               \<and> along (\<lambda>q. count_list (waiters q) (next_fut s)) used1 s3
               \<and> along (\<lambda>q. count_list (waiters q) (next_fut s)) used2
                    (s4\<lparr>waiters := remove1 (next_fut s) (waiters s4)\<rparr>) \<longrightarrow>
               count_list (waiters s) (next_fut s) = 0
             \<and> count_list (waiters s4) (next_fut s) = 1
             \<and> count_list (waiters s'') (next_fut s) = 0
             \<and> r' \<noteq> Inl ValueError)
          \<and> (queue_ok s \<and> along waiters used1 s3
               \<and> along waiters used2 (s4\<lparr>waiters := remove1 (next_fut s) (waiters s4)\<rparr>) \<longrightarrow>
               waiters s4 = waiters s @ [next_fut s] \<and> waiters s'' = waiters s)))"
proof -
  have drain: "fut \<in> set (waiters s) \<longrightarrow>
        (\<exists>s'. wait_drain fut r s = (r, s')
            \<and> waiters s' = remove1 fut (waiters s)
            \<and> length (waiters s') + 1 = length (waiters s)
            \<and> count_list (waiters s') fut + 1 = count_list (waiters s) fut
            \<and> filter (\<lambda>g. g \<noteq> fut) (waiters s') = filter (\<lambda>g. g \<noteq> fut) (waiters s)
            \<and> futs s' = futs s \<and> lock_owner s' = lock_owner s)"
  proof
    assume mem: "fut \<in> set (waiters s)"
    then have pos: "0 < length (waiters s)" "0 < count_list (waiters s) fut"
      by (auto simp: in_set_count_list [symmetric])
    let ?s' = "s\<lparr>waiters := remove1 fut (waiters s)\<rparr>"
    from mem pos have "wait_drain fut r s = (r, ?s')
            \<and> waiters ?s' = remove1 fut (waiters s)
            \<and> length (waiters ?s') + 1 = length (waiters s)
            \<and> count_list (waiters ?s') fut + 1 = count_list (waiters s) fut
            \<and> filter (\<lambda>g. g \<noteq> fut) (waiters ?s') = filter (\<lambda>g. g \<noteq> fut) (waiters s)
            \<and> futs ?s' = futs s \<and> lock_owner ?s' = lock_owner s"
      by (simp add: wait_drain_present length_remove1 count_list_remove1 remove1_others)
    then show "\<exists>s'. wait_drain fut r s = (r, s')
            \<and> waiters s' = remove1 fut (waiters s)
            \<and> length (waiters s') + 1 = length (waiters s)
            \<and> count_list (waiters s') fut + 1 = count_list (waiters s) fut
            \<and> filter (\<lambda>g. g \<noteq> fut) (waiters s') = filter (\<lambda>g. g \<noteq> fut) (waiters s)
            \<and> futs s' = futs s \<and> lock_owner s' = lock_owner s"
      by (rule exI)
  qed
  let ?fut = "next_fut s"
  let ?cnt = "\<lambda>q. count_list (waiters q) ?fut"
  have whole: "wait t es s = Some (r', s'', es') \<and> r' \<noteq> Inl RuntimeError \<longrightarrow>
        (\<exists>s3 used1 used2 r1 s4.
            wait_enter s = Inr (?fut, s3)
          \<and> waiters s3 = waiters s @ [?fut]
          \<and> es = used1 @ used2 @ es'
          \<and> await_fut ?fut es s3 = Some (r1, s4, used2 @ es')
          \<and> s4 = run used1 s3
          \<and> (if ?fut \<in> set (waiters s4)
              then s'' = (run used2 (s4\<lparr>waiters := remove1 ?fut (waiters s4)\<rparr>))
                           \<lparr>lock_owner := Some t\<rparr>
                   \<and> (r' = r1 \<or> r' = Inl CancelledError)
              else s'' = (run used2 s4)\<lparr>lock_owner := Some t\<rparr>
                   \<and> (r' = Inl ValueError \<or> r' = Inl CancelledError))
          \<and> (queue_ok s \<and> along ?cnt used1 s3
               \<and> along ?cnt used2 (s4\<lparr>waiters := remove1 ?fut (waiters s4)\<rparr>) \<longrightarrow>
               ?cnt s = 0 \<and> ?cnt s4 = 1 \<and> ?cnt s'' = 0 \<and> r' \<noteq> Inl ValueError)
          \<and> (queue_ok s \<and> along waiters used1 s3
               \<and> along waiters used2 (s4\<lparr>waiters := remove1 ?fut (waiters s4)\<rparr>) \<longrightarrow>
               waiters s4 = waiters s @ [?fut] \<and> waiters s'' = waiters s))"
  proof
    assume a: "wait t es s = Some (r', s'', es') \<and> r' \<noteq> Inl RuntimeError"
    then have w: "wait t es s = Some (r', s'', es')" and ne: "r' \<noteq> Inl RuntimeError"
      by blast+
    from wait_effect [OF w ne] obtain s3 used1 used2 r1 s4 where
      e: "wait_enter s = Inr (?fut, s3)" "waiters s3 = waiters s @ [?fut]"
         "es = used1 @ used2 @ es'" "await_fut ?fut es s3 = Some (r1, s4, used2 @ es')"
         "s4 = run used1 s3" "r1 = Inl CancelledError \<or> (\<exists>v. r1 = Inr v)"
      and tail: "if ?fut \<in> set (waiters s4)
              then s'' = (run used2 (s4\<lparr>waiters := remove1 ?fut (waiters s4)\<rparr>))
                           \<lparr>lock_owner := Some t\<rparr>
                   \<and> (r' = r1 \<or> r' = Inl CancelledError)
              else s'' = (run used2 s4)\<lparr>lock_owner := Some t\<rparr>
                   \<and> (r' = Inl ValueError \<or> r' = Inl CancelledError)"
      by blast
    let ?s5 = "s4\<lparr>waiters := remove1 ?fut (waiters s4)\<rparr>"
    have kept: "queue_ok s \<and> along ?cnt used1 s3 \<and> along ?cnt used2 ?s5 \<longrightarrow>
               ?cnt s = 0 \<and> ?cnt s4 = 1 \<and> ?cnt s'' = 0 \<and> r' \<noteq> Inl ValueError"
    proof
      assume h: "queue_ok s \<and> along ?cnt used1 s3 \<and> along ?cnt used2 ?s5"
      then have fresh: "?cnt s = 0" by (simp add: queue_ok_fresh)
      from h have "?cnt (run used1 s3) = ?cnt s3" by (intro along_run) simp
      with e(2,5) fresh have one: "?cnt s4 = 1" by simp
      then have mem: "?fut \<in> set (waiters s4)" by (simp add: in_set_count_list)
      from h have "?cnt (run used2 ?s5) = ?cnt ?s5" by (intro along_run) simp
      with one have zero: "?cnt (run used2 ?s5) = 0" by (simp add: count_list_remove1)
      from tail mem have s'': "s'' = (run used2 ?s5)\<lparr>lock_owner := Some t\<rparr>"
        and res: "r' = r1 \<or> r' = Inl CancelledError" by simp_all
      from res e(6) have "r' \<noteq> Inl ValueError" by auto
      with fresh one zero s'' show "?cnt s = 0 \<and> ?cnt s4 = 1 \<and> ?cnt s'' = 0 \<and> r' \<noteq> Inl ValueError"
        by simp
    qed
    have quiet: "queue_ok s \<and> along waiters used1 s3 \<and> along waiters used2 ?s5 \<longrightarrow>
               waiters s4 = waiters s @ [?fut] \<and> waiters s'' = waiters s"
    proof
      assume h: "queue_ok s \<and> along waiters used1 s3 \<and> along waiters used2 ?s5"
      then have "?cnt s = 0" by (simp add: queue_ok_fresh)
      then have fresh: "?fut \<notin> set (waiters s)" by (simp add: count_list_0_iff)
      from h have "waiters (run used1 s3) = waiters s3" by (intro along_run) simp
      with e(2,5) have q4: "waiters s4 = waiters s @ [?fut]" by simp
      then have mem: "?fut \<in> set (waiters s4)" by simp
      from h have "waiters (run used2 ?s5) = waiters ?s5" by (intro along_run) simp
      with q4 fresh have "waiters (run used2 ?s5) = waiters s" by (simp add: remove1_append)
      moreover from tail mem have "s'' = (run used2 ?s5)\<lparr>lock_owner := Some t\<rparr>" by simp
      ultimately show "waiters s4 = waiters s @ [?fut] \<and> waiters s'' = waiters s"
        using q4 by simp
    qed
    from e(1-5) tail kept quiet
    show "\<exists>s3 used1 used2 r1 s4.
            wait_enter s = Inr (?fut, s3)
          \<and> waiters s3 = waiters s @ [?fut]
          \<and> es = used1 @ used2 @ es'
          \<and> await_fut ?fut es s3 = Some (r1, s4, used2 @ es')
          \<and> s4 = run used1 s3
          \<and> (if ?fut \<in> set (waiters s4)
              then s'' = (run used2 (s4\<lparr>waiters := remove1 ?fut (waiters s4)\<rparr>))
                           \<lparr>lock_owner := Some t\<rparr>
                   \<and> (r' = r1 \<or> r' = Inl CancelledError)
              else s'' = (run used2 s4)\<lparr>lock_owner := Some t\<rparr>
                   \<and> (r' = Inl ValueError \<or> r' = Inl CancelledError))
          \<and> (queue_ok s \<and> along ?cnt used1 s3
               \<and> along ?cnt used2 (s4\<lparr>waiters := remove1 ?fut (waiters s4)\<rparr>) \<longrightarrow>
               ?cnt s = 0 \<and> ?cnt s4 = 1 \<and> ?cnt s'' = 0 \<and> r' \<noteq> Inl ValueError)
          \<and> (queue_ok s \<and> along waiters used1 s3
               \<and> along waiters used2 (s4\<lparr>waiters := remove1 ?fut (waiters s4)\<rparr>) \<longrightarrow>
               waiters s4 = waiters s @ [?fut] \<and> waiters s'' = waiters s)"
      by blast
  qed
  from drain whole show ?thesis
    by (simp only: notify_waiters notify_all_waiters simp_thms)
qed

text \<open>
  A cancelled wait behind two queued waiters, in a turn that leaves the queue alone:
  the queue holds the three handles while the call is suspended and the two others, in
  their order, at the return.
\<close>

theorem handle_removed_once_witness:
  "queue_ok \<lparr>lock_owner = Some 0, waiters = [0, 1], futs = (\<lambda>f. Pending :: int future),
       next_fut = 2, guarded = ()\<rparr>
   \<and> (\<exists>s'. wait 0 [(\<lambda>s. s, True)]
          \<lparr>lock_owner = Some 0, waiters = [0, 1], futs = (\<lambda>f. Pending :: int future),
           next_fut = 2, guarded = ()\<rparr>
        = Some (Inl CancelledError, s', [])
      \<and> waiters s' = [0, 1])"
proof -
  let ?e = "(\<lambda>s. s, True) :: (int, unit) event"
  let ?s = "\<lparr>lock_owner = Some 0, waiters = [0, 1], futs = (\<lambda>f. Pending :: int future),
       next_fut = 2, guarded = ()\<rparr>"
  have q: "queue_ok ?s" by (simp add: queue_ok_def)
  have "\<exists>s'. wait 0 [?e] ?s = Some (Inl CancelledError, s', [])"
    by (simp add: wait_def wait_enter_def wait_drain_def locked_def release_def
        create_future_def deque_remove_def reacquire.simps acquire_def)
  then obtain s' where run: "wait 0 [?e] ?s = Some (Inl CancelledError, s', [])" ..
  have ne: "(Inl CancelledError :: error + int) \<noteq> Inl RuntimeError" by simp
  note inst = handle_removed_once [where s = ?s and t = 0 and es = "[?e]"
      and r' = "Inl CancelledError" and s'' = s' and es' = "[]"]
  from inst run ne obtain s3 used1 used2 r1 s4 where
    en: "wait_enter ?s = Inr (next_fut ?s, s3)"
    and split: "[?e] = used1 @ used2 @ []"
    and aw: "await_fut (next_fut ?s) [?e] s3 = Some (r1, s4, used2 @ [])"
    and quiet: "queue_ok ?s \<and> along waiters used1 s3
        \<and> along waiters used2 (s4\<lparr>waiters := remove1 (next_fut ?s) (waiters s4)\<rparr>) \<longrightarrow>
        waiters s4 = waiters ?s @ [next_fut ?s] \<and> waiters s' = waiters ?s"
    by blast
  from aw have "used2 = []" by simp
  with split have "used1 = [?e]" by simp
  with \<open>used2 = []\<close> quiet q have "waiters s' = waiters ?s" by simp
  with q run show ?thesis by simp
qed

subsection \<open>wait\_for\<close>

lemma wait_results:
  assumes "locked s" and "wait t es s = Some (r, s', es')"
  shows "lock_owner s' = Some t \<and> r \<noteq> Inl RuntimeError"
proof -
  from assms(1) obtain fut s3 where en: "wait_enter s = Inr (fut, s3)"
    by (blast dest: wait_enter_ok)
  from wait_parts [OF assms(2) en] obtain r1 s4 r2 s5 c used2 where
    u: "wait_drain fut r1 s4 = (r2, s5)" "r1 = Inl CancelledError \<or> (\<exists>v. r1 = Inr v)"
       "s' = (run used2 s5)\<lparr>lock_owner := Some t\<rparr>" "r = (if c then Inl CancelledError else r2)"
    by blast
  from wait_drain_result [OF u(1)] u(2,4) have "r \<noteq> Inl RuntimeError" by auto
  with u(3) show ?thesis by simp
qed

lemma wait_for_result:
  "lock_owner s = Some t \<Longrightarrow> wait_for t p es s = Some (r, s', es') \<Longrightarrow>
   (\<forall>b. r = Inr b \<longrightarrow> b \<and> p (guarded s') \<and> lock_owner s' = Some t)
   \<and> (\<forall>e. r = Inl e \<longrightarrow> e \<noteq> RuntimeError
          \<and> (\<exists>es0 s0. lock_owner s0 = Some t \<and> wait t es0 s0 = Some (Inl e, s', es')))"
proof (induction t p es s rule: wait_for.induct)
  case (1 t p es s)
  show ?case
  proof (cases "p (guarded s)")
    case True
    with "1.prems" show ?thesis by (auto simp: wait_for.simps [of t p es s])
  next
    case False
    from "1.prems"(1) have l: "locked s" by (simp add: locked_def)
    from False "1.prems"(2) obtain r1 s1 es1 where w: "wait t es s = Some (r1, s1, es1)"
      by (cases "wait t es s") (auto simp: wait_for.simps [of t p es s])
    from wait_results [OF l w] have held: "lock_owner s1 = Some t" "r1 \<noteq> Inl RuntimeError"
      by simp_all
    show ?thesis
    proof (cases r1)
      case (Inl e)
      with False "1.prems"(2) w have "r = Inl e" "s' = s1" "es' = es1"
        by (simp_all add: wait_for.simps [of t p es s])
      with Inl w held "1.prems"(1) show ?thesis by auto
    next
      case (Inr v)
      with False "1.prems"(2) w have again: "wait_for t p es1 s1 = Some (r, s', es')"
        by (simp add: wait_for.simps [of t p es s])
      from "1.IH" [of "p (guarded s)" "(r1, s1, es1)" r1 "(s1, es1)" v s1 es1]
        False w Inr held(1) again
      show ?thesis by blast
    qed
  qed
qed

text \<open>
  C7. Called by the task that holds the lock: with a predicate that is true at the call,
  \<open>wait_for\<close> returns \<open>True\<close> at once, no turn of the event loop used and the state as it
  was; with a predicate that is false, it calls \<open>wait\<close>, raises what \<open>wait\<close> raises, and
  after a \<open>wait\<close> that returned a value starts over with the predicate in the new
  state. Whenever it returns a value, the value is \<open>True\<close>, the predicate holds in the
  state at the return and the caller holds the lock. Whenever it raises, the exception
  is the one that a \<open>wait\<close> of the loop, called under the lock, raised, with the state
  that this \<open>wait\<close> left; it is never the \<open>RuntimeError\<close> of the entry check.
\<close>

theorem wait_for_returns_true:
  assumes "lock_owner s = Some t"
  shows "(p (guarded s) \<longrightarrow> wait_for t p es s = Some (Inr True, s, es))
       \<and> (\<not> p (guarded s) \<longrightarrow>
            wait_for t p es s =
              (case wait t es s of
                 None \<Rightarrow> None
               | Some (Inl e, s1, es1) \<Rightarrow> Some (Inl e, s1, es1)
               | Some (Inr v, s1, es1) \<Rightarrow> wait_for t p es1 s1))
       \<and> (\<forall>b s' es'. wait_for t p es s = Some (Inr b, s', es') \<longrightarrow>
            b \<and> p (guarded s') \<and> lock_owner s' = Some t)
       \<and> (\<forall>e s' es'. wait_for t p es s = Some (Inl e, s', es') \<longrightarrow>
            e \<noteq> RuntimeError
            \<and> (\<exists>es0 s0. lock_owner s0 = Some t \<and> wait t es0 s0 = Some (Inl e, s', es')))"
proof -
  have a: "p (guarded s) \<longrightarrow> wait_for t p es s = Some (Inr True, s, es)"
    by (simp add: wait_for.simps [of t p es s])
  have b: "\<not> p (guarded s) \<longrightarrow>
            wait_for t p es s =
              (case wait t es s of
                 None \<Rightarrow> None
               | Some (Inl e, s1, es1) \<Rightarrow> Some (Inl e, s1, es1)
               | Some (Inr v, s1, es1) \<Rightarrow> wait_for t p es1 s1)"
    by (simp add: wait_for.simps [of t p es s])
  have c: "\<forall>b s' es'. wait_for t p es s = Some (Inr b, s', es') \<longrightarrow>
            b \<and> p (guarded s') \<and> lock_owner s' = Some t"
    using wait_for_result [OF assms] by blast
  have d: "\<forall>e s' es'. wait_for t p es s = Some (Inl e, s', es') \<longrightarrow>
            e \<noteq> RuntimeError
            \<and> (\<exists>es0 s0. lock_owner s0 = Some t \<and> wait t es0 s0 = Some (Inl e, s', es'))"
    using wait_for_result [OF assms] by blast
  from a b c d show ?thesis by (intro conjI)
qed

text \<open>
  The scenario of the specification: task 0 waits for the guarded list to be non-empty;
  in the next turn task 1 takes the lock, appends 1 to the list, calls \<open>notify 1 1\<close> and
  releases the lock; task 0 resumes, sees the list \<open>[1]\<close> and returns \<open>True\<close>.
\<close>

theorem wait_for_returns_true_witness:
  "lock_owner \<lparr>lock_owner = Some 0, waiters = [], futs = (\<lambda>f. Pending :: int future),
       next_fut = 0, guarded = ([] :: int list)\<rparr> = Some 0
   \<and> (\<exists>s'. wait_for 0 (\<lambda>g. g \<noteq> [])
          [(\<lambda>s. (snd (notify 1 1 (s\<lparr>lock_owner := Some 1, guarded := guarded s @ [1]\<rparr>)))
                  \<lparr>lock_owner := None\<rparr>, False)]
          \<lparr>lock_owner = Some 0, waiters = [], futs = (\<lambda>f. Pending :: int future),
           next_fut = 0, guarded = ([] :: int list)\<rparr>
        = Some (Inr True, s', [])
      \<and> guarded s' = [1] \<and> lock_owner s' = Some 0 \<and> waiters s' = [])"
proof -
  let ?e = "(\<lambda>s. (snd (notify 1 1 (s\<lparr>lock_owner := Some 1, guarded := guarded s @ [1]\<rparr>)))
                  \<lparr>lock_owner := None\<rparr>, False) :: (int, int list) event"
  let ?s = "\<lparr>lock_owner = Some 0, waiters = [], futs = (\<lambda>f. Pending :: int future),
       next_fut = 0, guarded = ([] :: int list)\<rparr>"
  have h: "lock_owner ?s = Some 0" by simp
  have "\<exists>s'. wait_for 0 (\<lambda>g. g \<noteq> []) [?e] ?s = Some (Inr True, s', [])
          \<and> guarded s' = [1] \<and> waiters s' = []"
    by (simp add: wait_for.simps wait_def wait_enter_def wait_drain_def locked_def release_def
        create_future_def deque_remove_def reacquire.simps acquire_def notify_def
        set_result_def)
  then obtain s' where run: "wait_for 0 (\<lambda>g. g \<noteq> []) [?e] ?s = Some (Inr True, s', [])"
    "guarded s' = [1]" "waiters s' = []" by blast
  from wait_for_returns_true [OF h, of "\<lambda>g. g \<noteq> []" "[?e]"] run(1)
  have "lock_owner s' = Some 0" by blast
  with h run show ?thesis by auto
qed

end
